theory Spec2Isabelle
  imports Main
begin

section \<open>JavaScript values\<close>

text \<open>
  The library works on untyped JavaScript values. The embedding keeps one type of
  first-order values. A promise is identified with its eventual settlement; an
  \<open>Error\<close> value stands for the error object of that class and message. Numbers are the
  integers among JavaScript's numbers; strings are lists of characters.
\<close>

datatype 'a settle = Fulfil 'a | Reject 'a

datatype error_name = TypeError | RangeError | ReferenceError

datatype val =
    Undefined
  | Null
  | Bool bool
  | Num int
  | Str string
  | Arr "val list"
  | SetV "val list"
  | Obj "(string \<times> val) list"
  | Promise "val settle"
  | SyncThenable val
  | Error error_name string

text \<open>A computation either throws a value (\<open>Inl\<close>) or returns (\<open>Inr\<close>).\<close>

type_synonym 'a result = "val + 'a"

section \<open>Shape predicates (index.js, lines 42-80)\<close>

text \<open>
  The predicates only read a few properties of their argument. A \<open>probe\<close> records what
  these reads give for one value: the dispatch of the front-ends is a function of the
  probe alone. A value may satisfy several predicates at once (every array has an
  iterator), which is why the order of the tests matters.
\<close>

datatype js_type =
  T_undefined | T_object | T_boolean | T_number | T_bigint | T_string | T_symbol | T_function

datatype js_ctor = C_Object | C_Set | C_Map | C_String | C_Number | C_other

record probe =
  nullish :: bool               \<comment> \<open>\<open>value == null\<close>\<close>
  js_typeof :: js_type          \<comment> \<open>\<open>typeof value\<close>\<close>
  js_constructor :: js_ctor     \<comment> \<open>\<open>value.constructor\<close>\<close>
  array_isArray :: bool         \<comment> \<open>\<open>Array.isArray(value)\<close>\<close>
  arrayBuffer_isView :: bool    \<comment> \<open>\<open>ArrayBuffer.isView(value)\<close>\<close>
  iterator_fn :: bool           \<comment> \<open>\<open>typeof value[Symbol.iterator] == 'function'\<close>\<close>
  asyncIterator_fn :: bool      \<comment> \<open>\<open>typeof value[Symbol.asyncIterator] == 'function'\<close>\<close>
  generator_tag :: bool         \<comment> \<open>\<open>isGeneratorFunction(value)\<close> of map.js\<close>
  asyncGenerator_tag :: bool    \<comment> \<open>\<open>isAsyncGeneratorFunction(value)\<close> of map.js\<close>
  next_fn :: bool               \<comment> \<open>\<open>typeof value.next == 'function'\<close>\<close>
  iterator_in :: bool           \<comment> \<open>\<open>Symbol.iterator in value\<close>\<close>
  map_fn :: bool                \<comment> \<open>\<open>typeof value.map == 'function'\<close>\<close>
  filter_fn :: bool             \<comment> \<open>\<open>typeof value.filter == 'function'\<close>\<close>

definition isIterable :: "probe \<Rightarrow> bool" where
  "isIterable v = (\<not> nullish v \<and> iterator_fn v)"

definition isAsyncIterable :: "probe \<Rightarrow> bool" where
  "isAsyncIterable v = (\<not> nullish v \<and> asyncIterator_fn v)"

definition isFunction :: "probe \<Rightarrow> bool" where
  "isFunction v = (js_typeof v = T_function)"

definition isArray :: "probe \<Rightarrow> bool" where
  "isArray v = array_isArray v"

definition isObject :: "probe \<Rightarrow> bool" where
  "isObject v = (\<not> nullish v \<and> js_constructor v = C_Object)"

definition isSet :: "probe \<Rightarrow> bool" where
  "isSet v = (\<not> nullish v \<and> js_constructor v = C_Set)"

definition isMap :: "probe \<Rightarrow> bool" where
  "isMap v = (\<not> nullish v \<and> js_constructor v = C_Map)"

definition isTypedArray :: "probe \<Rightarrow> bool" where
  "isTypedArray v = arrayBuffer_isView v"

definition isString :: "probe \<Rightarrow> bool" where
  "isString v = (js_typeof v = T_string \<or> (\<not> nullish v \<and> js_constructor v = C_String))"

section \<open>Dispatch of the front-ends\<close>

text \<open>
  The front-ends of index.js call \<open>map<Shape>\<close> or \<open>filter<Shape>\<close>; the dispatch
  returns the shape whose implementation is called.
\<close>

datatype shape =
    AsyncIterableS | ArrayS | StringS | SetS | MapS | TypedArrayS
  | IterableS | ObjectS | ReducerS



text \<open>index.js, lines 1097-1108: the unary function returned by \<open>filter(predicate)\<close>.\<close>

definition filter_apply :: "probe \<Rightarrow> shape result" where
  "filter_apply x =
     (if isAsyncIterable x then Inr AsyncIterableS
      else if isArray x then Inr ArrayS
      else if isString x then Inr StringS
      else if isSet x then Inr SetS
      else if isMap x then Inr MapS
      else if isTypedArray x then Inr TypedArrayS
      else if isIterable x then Inr IterableS
      else if isObject x then Inr ObjectS
      else if isFunction x then Inr ReducerS
      else Inl (Error TypeError ''filter(...)(x); x invalid''))"








text \<open>Probes of some ordinary values, as the predicates see them.\<close>

definition primitive_number :: probe where
  "primitive_number =
     \<lparr>nullish = False, js_typeof = T_number, js_constructor = C_Number,
      array_isArray = False, arrayBuffer_isView = False, iterator_fn = False,
      asyncIterator_fn = False, generator_tag = False, asyncGenerator_tag = False,
      next_fn = False, iterator_in = False, map_fn = False, filter_fn = False\<rparr>"


definition plain_object :: probe where
  "plain_object = primitive_number\<lparr>js_typeof := T_object, js_constructor := C_Object\<rparr>"

definition plain_array :: probe where
  "plain_array =
     primitive_number\<lparr>js_typeof := T_object, js_constructor := C_other, array_isArray := True,
       iterator_fn := True, iterator_in := True, map_fn := True, filter_fn := True\<rparr>"



section \<open>Promises and the unification helper (index.js, lines 80-130)\<close>

text \<open>index.js, line 80: a value is taken for a promise when it has a \<open>then\<close> method.\<close>

fun isPromise :: "val \<Rightarrow> bool" where
  "isPromise (Promise s) = True"
| "isPromise (SyncThenable v) = True"
| "isPromise v = False"

text \<open>
  What \<open>await v\<close> gives: the settlement of a promise, the wrapped value of a
  \<open>SyncThenable\<close> (its \<open>then\<close> hands the value to the resolver at once), the value itself
  otherwise. \<open>resolve\<close> is \<open>Promise.resolve\<close>, which is also what an asynchronous function does
  with the value it returns.
\<close>

fun await :: "val \<Rightarrow> val settle" where
  "await (Promise s) = s"
| "await (SyncThenable v) = await v"
| "await v = Fulfil v"

definition resolve :: "val \<Rightarrow> val" where
  "resolve v = Promise (await v)"

text \<open>
  \<open>value.then(func)\<close>. A promise gives a new promise: of what \<open>func\<close> returns, rejected
  with what \<open>func\<close> throws, or rejected as the promise itself is. \<open>SyncThenable.prototype.then\<close>
  (line 118) calls \<open>func\<close> at once and returns its result.
\<close>

fun then_method :: "val \<Rightarrow> (val \<Rightarrow> val result) \<Rightarrow> val result" where
  "then_method (Promise (Fulfil v)) func =
     Inr (case func v of Inl e \<Rightarrow> Promise (Reject e) | Inr w \<Rightarrow> resolve w)"
| "then_method (Promise (Reject e)) func = Inr (Promise (Reject e))"
| "then_method (SyncThenable v) func = func v"
| "then_method v func = Inl (Error TypeError ''value.then is not a function'')"

text \<open>index.js, lines 101-102.\<close>

definition possiblePromiseThen :: "val \<Rightarrow> (val \<Rightarrow> val result) \<Rightarrow> val result" where
  "possiblePromiseThen v func = (if isPromise v then then_method v func else func v)"

text \<open>
  \<open>Promise.all(values)\<close>: the promise of the resolved values in order, or rejected with the
  reason of the first element that rejects. Where several elements reject, JavaScript takes
  the one that rejects first in time; the embedding has no clock and takes the first in the
  list, which is what happens for promises that are settled already.
\<close>

fun all_settled :: "val list \<Rightarrow> val + val list" where
  "all_settled [] = Inr []"
| "all_settled (v # vs) =
     (case await v of
        Reject e \<Rightarrow> Inl e
      | Fulfil w \<Rightarrow> (case all_settled vs of Inl e \<Rightarrow> Inl e | Inr ws \<Rightarrow> Inr (w # ws)))"

definition promiseAll :: "val list \<Rightarrow> val" where
  "promiseAll vs =
     (case all_settled vs of Inl e \<Rightarrow> Promise (Reject e) | Inr ws \<Rightarrow> Promise (Fulfil (Arr ws)))"

text \<open>index.js, lines 128-130.\<close>

definition possiblePromiseAll :: "val list \<Rightarrow> val" where
  "possiblePromiseAll vs =
     (if list_ex isPromise vs then promiseAll vs else SyncThenable (Arr vs))"

text \<open>JavaScript's truthiness, on the values of the embedding.\<close>

fun truthy :: "val \<Rightarrow> bool" where
  "truthy Undefined = False"
| "truthy Null = False"
| "truthy (Bool b) = b"
| "truthy (Num n) = (n \<noteq> 0)"
| "truthy (Str s) = (s \<noteq> [])"
| "truthy v = True"

text \<open>
  A callback of the user may throw. \<open>calls f xs\<close> applies \<open>f\<close> to the elements in order, as
  \<open>Array.prototype.map\<close> and a \<open>for ... of\<close> loop do, and stops at the first throw.
\<close>

fun calls :: "(val \<Rightarrow> val result) \<Rightarrow> val list \<Rightarrow> val list result" where
  "calls f [] = Inr []"
| "calls f (xi # xs) =
     (case f xi of
        Inl e \<Rightarrow> Inl e
      | Inr v \<Rightarrow> (case calls f xs of Inl e \<Rightarrow> Inl e | Inr vs \<Rightarrow> Inr (v # vs)))"

section \<open>Per-shape map (index.js, lines 623-754)\<close>

text \<open>
  A generator object is modelled by what its \<open>next\<close> does: it is finished, it throws, or
  it yields a value and becomes the rest. Nothing of the body runs before the first pull.
\<close>

datatype iter = Done | Throws val | Yield val iter


text \<open>index.js, lines 653-661, on a dense array.\<close>

definition mapArray :: "(val \<Rightarrow> val result) \<Rightarrow> val list \<Rightarrow> val result" where
  "mapArray f x =
     (case calls f x of
        Inl e \<Rightarrow> Inl e
      | Inr y \<Rightarrow> Inr (if list_ex isPromise y then promiseAll y else Arr y))"

text \<open>\<open>Set.prototype.add\<close>; values are compared structurally.\<close>

definition set_add :: "val list \<Rightarrow> val \<Rightarrow> val list" where
  "set_add y v = (if v \<in> set y then y else y @ [v])"






text \<open>A reducer takes the accumulator and an element. index.js, lines 753-754.\<close>

type_synonym reducer = "val \<Rightarrow> val \<Rightarrow> val result"

definition mapReducer :: "(val \<Rightarrow> val result) \<Rightarrow> reducer \<Rightarrow> reducer" where
  "mapReducer f reducer =
     (\<lambda>y xi. case f xi of
                Inl e \<Rightarrow> Inl e
              | Inr v \<Rightarrow> possiblePromiseThen v (\<lambda>res. reducer y res))"

text \<open>
  What a front-end returns is a first-order value or a generator object; only a value can
  be a pending result.
\<close>

datatype returned = Value val | Generator iter

fun pending :: "returned \<Rightarrow> bool" where
  "pending (Value v) = isPromise v"
| "pending (Generator g) = False"

section \<open>Per-shape filter (index.js, lines 962-1084)\<close>

text \<open>index.js, lines 962-974.\<close>

fun filterIterable :: "(val \<Rightarrow> val result) \<Rightarrow> val list \<Rightarrow> iter" where
  "filterIterable predicate [] = Done"
| "filterIterable predicate (xi # x) =
     (case predicate xi of
        Inl e \<Rightarrow> Throws e
      | Inr ok \<Rightarrow>
          (if isPromise ok
           then Throws (Error TypeError
             ''filter(f)(x); xi is an element of x; if x if the resulting iterator of a sync generator, f(xi) cannot return a Promise'')
           else if truthy ok then Yield xi (filterIterable predicate x)
           else filterIterable predicate x))"

text \<open>
  \<open>next()\<close> on a generator object: the reply and the generator afterwards. A generator
  that has thrown is finished. \<open>drain\<close> pulls until the generator ends and gives the values
  yielded with what ended it.
\<close>

fun pull :: "iter \<Rightarrow> val option result \<times> iter" where
  "pull Done = (Inr None, Done)"
| "pull (Throws e) = (Inl e, Done)"
| "pull (Yield v g) = (Inr (Some v), g)"

fun drain :: "iter \<Rightarrow> val list \<times> val option" where
  "drain Done = ([], None)"
| "drain (Throws e) = ([], Some e)"
| "drain (Yield v g) = (case drain g of (vs, r) \<Rightarrow> (v # vs, r))"

text \<open>index.js, lines 981-990.\<close>

definition createFilterIndex :: "(val \<Rightarrow> val result) \<Rightarrow> val list \<Rightarrow> val result" where
  "createFilterIndex predicate x =
     (case calls predicate x of
        Inl e \<Rightarrow> Inl e
      | Inr filterIndex \<Rightarrow>
          Inr (if list_ex isPromise filterIndex then promiseAll filterIndex else Arr filterIndex))"

text \<open>\<open>res[i]\<close>: the element of an array, \<open>undefined\<close> beyond its end or on another value.\<close>

fun js_index :: "val \<Rightarrow> nat \<Rightarrow> val" where
  "js_index (Arr vs) i = (if i < length vs then vs ! i else Undefined)"
| "js_index v i = Undefined"

text \<open>index.js, lines 997-1000: \<open>x.filter((_, i) => res[i])\<close> after the filter index.\<close>

definition filterArray :: "(val \<Rightarrow> val result) \<Rightarrow> val list \<Rightarrow> val result" where
  "filterArray predicate x =
     (case createFilterIndex predicate x of
        Inl e \<Rightarrow> Inl e
      | Inr index \<Rightarrow>
          possiblePromiseThen index
            (\<lambda>res. Inr (Arr (map fst (filter (\<lambda>(xi, i). truthy (js_index res i))
                                        (zip x [0 ..< length x]))))))"

text \<open>index.js, lines 1083-1084.\<close>

definition filterReducer :: "(val \<Rightarrow> val result) \<Rightarrow> reducer \<Rightarrow> reducer" where
  "filterReducer predicate reducer =
     (\<lambda>y xi. case predicate xi of
                Inl e \<Rightarrow> Inl e
              | Inr ok \<Rightarrow> possiblePromiseThen ok (\<lambda>res. if truthy res then reducer y xi else Inr y))"

section \<open>Reduce (index.js, lines 1168-1278)\<close>

text \<open>
  index.js, lines 1168-1174: an asynchronous function, so the result is a promise. A throw
  of \<open>f\<close> and a rejected \<open>await\<close> both reject it.
\<close>

fun asyncReduce_settle :: "reducer \<Rightarrow> val \<Rightarrow> val list \<Rightarrow> val settle" where
  "asyncReduce_settle f y [] = await y"
| "asyncReduce_settle f y (xi # iter) =
     (case f y xi of
        Inl e \<Rightarrow> Reject e
      | Inr v \<Rightarrow> (case await v of Reject e \<Rightarrow> Reject e | Fulfil y' \<Rightarrow> asyncReduce_settle f y' iter))"

definition asyncReduceIterator :: "reducer \<Rightarrow> val \<Rightarrow> val list \<Rightarrow> val" where
  "asyncReduceIterator f x0 iter = Promise (asyncReduce_settle f x0 iter)"

text \<open>index.js, lines 1197-1203: the loop over the rest of the iterator.\<close>

fun reduceIterable_loop :: "reducer \<Rightarrow> val \<Rightarrow> val list \<Rightarrow> val result" where
  "reduceIterable_loop fn y [] = Inr y"
| "reduceIterable_loop fn y (xi # iter) =
     (case fn y xi of
        Inl e \<Rightarrow> Inl e
      | Inr y' \<Rightarrow>
          (if isPromise y' then then_method y' (\<lambda>res. Inr (asyncReduceIterator fn res iter))
           else reduceIterable_loop fn y' iter))"

text \<open>
  index.js, lines 1185-1204. \<open>iter.next().value\<close> is \<open>undefined\<close> on an exhausted iterator;
  \<open>isUndefined\<close> (line 44) holds of \<open>undefined\<close> alone.
\<close>

definition reduceIterable :: "reducer \<Rightarrow> val \<Rightarrow> val list \<Rightarrow> val result" where
  "reduceIterable fn possiblyX0 x =
     (let (y0, iter) =
            (if possiblyX0 = Undefined
             then (case x of [] \<Rightarrow> (Undefined, []) | v # rest \<Rightarrow> (v, rest))
             else (possiblyX0, x))
      in if y0 = Undefined then Inl (Error TypeError ''reduce(...)(x); x cannot be empty'')
         else (case iter of
                 [] \<Rightarrow> Inr y0
               | v # iter' \<Rightarrow>
                   (case fn y0 v of
                      Inl e \<Rightarrow> Inl e
                    | Inr y \<Rightarrow>
                        (if isPromise y
                         then then_method y (\<lambda>res. Inr (asyncReduceIterator fn res iter'))
                         else reduceIterable_loop fn y iter'))))"

text \<open>
  index.js, lines 1211-1224, over the values that the asynchronous iterator delivers: an
  asynchronous function, whose throw is the rejection of its promise.
\<close>

definition reduceAsyncIterable :: "reducer \<Rightarrow> val \<Rightarrow> val list \<Rightarrow> val" where
  "reduceAsyncIterable fn possiblyY0 x =
     (let (y0, iter) =
            (if possiblyY0 = Undefined
             then (case x of [] \<Rightarrow> (Undefined, []) | v # rest \<Rightarrow> (v, rest))
             else (possiblyY0, x))
      in if y0 = Undefined
         then Promise (Reject (Error TypeError ''reduce(...)(x); x cannot be empty''))
         else (case iter of
                 [] \<Rightarrow> resolve y0
               | v # iter' \<Rightarrow>
                   (case fn y0 v of
                      Inl e \<Rightarrow> Promise (Reject e)
                    | Inr w \<Rightarrow>
                        (case await w of
                           Reject e \<Rightarrow> Promise (Reject e)
                         | Fulfil y \<Rightarrow> Promise (asyncReduce_settle fn y iter')))))"

text \<open>index.js, lines 1230-1234: the values of the enumerable keys, in order.\<close>

definition reduceObject :: "reducer \<Rightarrow> val \<Rightarrow> (string \<times> val) list \<Rightarrow> val result" where
  "reduceObject fn x0 x = reduceIterable fn x0 (map snd x)"

text \<open>
  The operand of \<open>reduce\<close>: what the predicates see of it, what its iterator and its
  asynchronous iterator deliver, and its enumerable keys with their values.
\<close>

record operand =
  observed :: probe
  items :: "val list"
  async_items :: "val list"
  enumerable :: "(string \<times> val) list"

text \<open>
  The second argument of \<open>reduce\<close>: a function of the operand or a plain value; an argument
  left out is \<open>undefined\<close>. The first argument is a function or not.
\<close>

datatype seed = Initializer "operand \<Rightarrow> val result" | Initial val

datatype 'f argument = Callable 'f | NotCallable

text \<open>
  index.js, lines 1253-1277. Nothing calls \<open>cancel\<close> here, so the race with the cancel
  token settles as the reduction does.
\<close>

definition reduce_apply :: "reducer \<Rightarrow> seed \<Rightarrow> operand \<Rightarrow> val result" where
  "reduce_apply fn init x =
     (case (case init of Initializer g \<Rightarrow> g x | Initial v \<Rightarrow> Inr v) of
        Inl e \<Rightarrow> Inl e
      | Inr x0 \<Rightarrow>
          (if isIterable (observed x)
           then possiblePromiseThen x0 (\<lambda>res. reduceIterable fn res (items x))
           else if isAsyncIterable (observed x)
           then (case possiblePromiseThen x0
                        (\<lambda>res. Inr (reduceAsyncIterable fn res (async_items x))) of
                   Inl e \<Rightarrow> Inl e
                 | Inr p \<Rightarrow> Inr (resolve p))
           else if isObject (observed x)
           then possiblePromiseThen x0 (\<lambda>res. reduceObject fn res (enumerable x))
           else Inl (Error TypeError ''reduce(...)(x); x invalid'')))"

text \<open>index.js, lines 1249-1278.\<close>

definition reduce :: "reducer argument \<Rightarrow> seed \<Rightarrow> (operand \<Rightarrow> val result) result" where
  "reduce fn init =
     (case fn of
        NotCallable \<Rightarrow> Inl (Error TypeError ''reduce(x, y); x is not a function'')
      | Callable f \<Rightarrow> Inr (reduce_apply f init))"

text \<open>index.js, line 1294: the reducer that \<open>arrayTransform\<close> folds with.\<close>

fun arrayPush :: reducer where
  "arrayPush (Arr y) xi = Inr (Arr (y @ [xi]))"
| "arrayPush y xi = Inl (Error TypeError ''y.push is not a function'')"

text \<open>An array as an operand of \<open>reduce\<close>.\<close>

definition array_operand :: "val list \<Rightarrow> operand" where
  "array_operand xs =
     \<lparr>observed = plain_array, items = xs, async_items = [], enumerable = []\<rparr>"

text \<open>An object and an asynchronous iterable as operands of \<open>reduce\<close>.\<close>

definition object_operand :: "(string \<times> val) list \<Rightarrow> operand" where
  "object_operand kvs =
     \<lparr>observed = plain_object, items = [], async_items = [], enumerable = kvs\<rparr>"

definition async_operand :: "val list \<Rightarrow> operand" where
  "async_operand xs =
     \<lparr>observed = plain_object\<lparr>js_constructor := C_other, asyncIterator_fn := True\<rparr>,
      items = [], async_items = xs, enumerable = []\<rparr>"

section \<open>The pool mapper (index.js, lines 819-878)\<close>

text \<open>
  \<open>mapPoolArray\<close> is an asynchronous function: it runs until it awaits, and the
  continuations of the promises run while it is suspended or after it has returned, in an
  order that the mapper's promises decide. The embedding is a machine whose steps are
  driven by a list of events: \<open>Tick\<close> lets the function run to its next decision, \<open>Settle i\<close>
  settles the promise of the mapper that stands behind entry \<open>i\<close> of the output array and
  runs its continuation. The argument \<open>size\<close> of the source is called \<open>limit\<close>.

  An entry of the output array \<open>y\<close> is a value that the mapper returned directly, or the
  promise \<open>p\<close> made for a pending result: in flight, with the settlement that its mapper
  promise will have, or settled. The set \<open>promises\<close> holds the entries in flight, by their
  index in \<open>y\<close>.
\<close>

datatype slot = Direct val | InFlight "val settle" | Finished "val settle"

datatype phase = Running | Suspended bool | Returned | Failed val

record pool =
  pool_todo :: "val list"        \<comment> \<open>the elements of \<open>x\<close> not yet pulled\<close>
  pool_y :: "slot list"          \<comment> \<open>the array \<open>y\<close>\<close>
  pool_promises :: "nat list"    \<comment> \<open>the set \<open>promises\<close>\<close>
  pool_phase :: phase

datatype event = Tick | Settle nat

text \<open>index.js, lines 820-821.\<close>

definition start :: "val list \<Rightarrow> pool" where
  "start x = \<lparr>pool_todo = x, pool_y = [], pool_promises = [], pool_phase = Running\<rparr>"

text \<open>
  index.js, lines 826-836: the mapper is applied to the next element. A throw of the
  mapper rejects the function. A pending result gets its continuation, and the new
  promise \<open>p\<close> goes into \<open>promises\<close> and \<open>y\<close>. A \<open>SyncThenable\<close> runs the continuation at
  once, inside the initialiser of \<open>p\<close>, where reading \<open>p\<close> is a ReferenceError (its
  message depends on the engine).
\<close>

definition call_mapper :: "(val \<Rightarrow> val result) \<Rightarrow> pool \<Rightarrow> pool" where
  "call_mapper f s =
     (case pool_todo s of
        [] \<Rightarrow> s
      | xi # rest \<Rightarrow>
          (case f xi of
             Inl e \<Rightarrow> s\<lparr>pool_phase := Failed e\<rparr>
           | Inr yi \<Rightarrow>
               (case yi of
                  Promise st \<Rightarrow>
                    s\<lparr>pool_todo := rest,
                      pool_y := pool_y s @ [InFlight st],
                      pool_promises := pool_promises s @ [length (pool_y s)],
                      pool_phase := Running\<rparr>
                | SyncThenable v \<Rightarrow>
                    s\<lparr>pool_phase := Failed (Error ReferenceError ''p is not initialized'')\<rparr>
                | _ \<Rightarrow>
                    s\<lparr>pool_todo := rest, pool_y := pool_y s @ [Direct yi],
                      pool_phase := Running\<rparr>)))"

text \<open>The reason of the first promise among the given entries that has rejected already.\<close>

fun rejection :: "slot \<Rightarrow> val option" where
  "rejection (Finished (Reject e)) = Some e"
| "rejection sl = None"

definition first_rejection :: "slot list \<Rightarrow> val option" where
  "first_rejection sls = (case List.map_filter rejection sls of [] \<Rightarrow> None | e # _ \<Rightarrow> Some e)"

text \<open>
  One step.

  \<open>Tick\<close> at the head of the loop (line 822): with no element left the function returns
  \<open>Promise.all(y)\<close> (line 838), which is rejected at once if an entry has rejected. With
  \<open>promises.size >= size\<close> it awaits \<open>Promise.race(promises)\<close> (lines 823-825), which is
  rejected at once if an entry of the set has rejected; otherwise the function is
  suspended. Else it applies the mapper. \<open>Tick\<close> on a suspended function resumes it after
  the race is won, and then the mapper is applied without a second test of the size.

  \<open>Settle i\<close> (lines 828-831) is possible whenever the function is not running. If the
  mapper's promise fulfils, the continuation deletes \<open>p\<close> from \<open>promises\<close> and \<open>p\<close> fulfils;
  a race that was awaited is won. If it rejects, the continuation does not run, \<open>p\<close> stays
  in \<open>promises\<close> and rejects; a race or a \<open>Promise.all\<close> that was awaited is lost, and the
  function rejects.
\<close>

definition step :: "int \<Rightarrow> (val \<Rightarrow> val result) \<Rightarrow> event \<Rightarrow> pool \<Rightarrow> pool option" where
  "step limit f ev s =
     (case ev of
        Tick \<Rightarrow>
          (case pool_phase s of
             Running \<Rightarrow>
               (if pool_todo s = [] then
                  (case first_rejection (pool_y s) of
                     Some e \<Rightarrow> Some (s\<lparr>pool_phase := Failed e\<rparr>)
                   | None \<Rightarrow> Some (s\<lparr>pool_phase := Returned\<rparr>))
                else if int (length (pool_promises s)) \<ge> limit then
                  (case first_rejection (map (\<lambda>i. pool_y s ! i) (pool_promises s)) of
                     Some e \<Rightarrow> Some (s\<lparr>pool_phase := Failed e\<rparr>)
                   | None \<Rightarrow> Some (s\<lparr>pool_phase := Suspended False\<rparr>))
                else Some (call_mapper f s))
           | Suspended won \<Rightarrow> (if won then Some (call_mapper f s) else None)
           | _ \<Rightarrow> None)
      | Settle i \<Rightarrow>
          (if pool_phase s = Running \<or> \<not> i < length (pool_y s) then None
           else
             (case pool_y s ! i of
                InFlight (Fulfil res) \<Rightarrow>
                  Some (s\<lparr>pool_y := (pool_y s)[i := Finished (Fulfil res)],
                         pool_promises := removeAll i (pool_promises s),
                         pool_phase := (case pool_phase s of
                                          Suspended won \<Rightarrow> Suspended True
                                        | ph \<Rightarrow> ph)\<rparr>)
              | InFlight (Reject e) \<Rightarrow>
                  Some (s\<lparr>pool_y := (pool_y s)[i := Finished (Reject e)],
                         pool_phase := (case pool_phase s of
                                          Suspended won \<Rightarrow> (if won then Suspended True else Failed e)
                                        | Returned \<Rightarrow> Failed e
                                        | ph \<Rightarrow> ph)\<rparr>)
              | _ \<Rightarrow> None)))"

text \<open>A run: the events one after the other; \<open>None\<close> if one of them is not possible.\<close>

fun run :: "int \<Rightarrow> (val \<Rightarrow> val result) \<Rightarrow> event list \<Rightarrow> pool \<Rightarrow> pool option" where
  "run limit f [] s = Some s"
| "run limit f (ev # evs) s =
     (case step limit f ev s of None \<Rightarrow> None | Some s' \<Rightarrow> run limit f evs s')"

text \<open>
  The settlement of the promise that \<open>mapPoolArray\<close> returns, once it has one: rejected
  when the function has rejected, fulfilled with the array of the values when it has
  returned \<open>Promise.all(y)\<close> and no entry is in flight any more.
\<close>

fun slot_value :: "slot \<Rightarrow> val" where
  "slot_value (Direct v) = v"
| "slot_value (Finished (Fulfil v)) = v"
| "slot_value sl = Undefined"

fun in_flight :: "slot \<Rightarrow> bool" where
  "in_flight (InFlight st) = True"
| "in_flight sl = False"

definition settlement :: "pool \<Rightarrow> val settle option" where
  "settlement s =
     (case pool_phase s of
        Failed e \<Rightarrow> Some (Reject e)
      | Returned \<Rightarrow>
          (if list_ex in_flight (pool_y s) then None
           else Some (Fulfil (Arr (map slot_value (pool_y s)))))
      | _ \<Rightarrow> None)"

text \<open>
  index.js, lines 862-878, for a \<open>size\<close> that is an integer, here \<open>limit\<close>: \<open>map.pool\<close> checks its
  configuration and returns the unary function, which dispatches on the operand. On a Set
  and on a Map the array of \<open>mapPoolArray\<close> is made into a Set or Map afterwards.
\<close>

definition pool_apply :: "probe \<Rightarrow> shape result" where
  "pool_apply x =
     (if isArray x then Inr ArrayS
      else if isSet x then Inr SetS
      else if isMap x then Inr MapS
      else Inl (Error TypeError ''map.pool(...)(x); x invalid''))"

definition map_pool :: "int \<Rightarrow> probe \<Rightarrow> (probe \<Rightarrow> shape result) result" where
  "map_pool limit fn =
     (if limit < 1 then Inl (Error RangeError ''map.pool(size, f); size must be 1 or more'')
      else if \<not> isFunction fn then Inl (Error TypeError ''map.pool(size, f); f is not a function'')
      else Inr pool_apply)"

section \<open>The pool mapper for Sets (unnamed/part_001)\<close>









section \<open>Invariants of the pool mapper\<close>

text \<open>
  The bookkeeping of the in-flight set: it holds each index once; every member is an
  entry of \<open>y\<close> in flight or rejected; every such entry is a member; its size is
  within the limit, below it when the function is about to resume, and at it while the
  function waits; a suspended
  function has an element left; a function that has returned has none, and no entry has
  rejected.
\<close>

definition tidy :: "int \<Rightarrow> pool \<Rightarrow> bool" where
  "tidy limit s \<longleftrightarrow>
     distinct (pool_promises s)
     \<and> (\<forall>i\<in>set (pool_promises s). i < length (pool_y s)
           \<and> (in_flight (pool_y s ! i) \<or> rejection (pool_y s ! i) \<noteq> None))
     \<and> (\<forall>i<length (pool_y s). in_flight (pool_y s ! i) \<longrightarrow> i \<in> set (pool_promises s))
     \<and> (\<forall>i<length (pool_y s). rejection (pool_y s ! i) \<noteq> None \<longrightarrow> i \<in> set (pool_promises s))
     \<and> int (length (pool_promises s)) \<le> limit
     \<and> (pool_phase s = Suspended True \<longrightarrow> int (length (pool_promises s)) < limit)
     \<and> (pool_phase s = Suspended False \<longrightarrow> limit \<le> int (length (pool_promises s)))
     \<and> (\<forall>won. pool_phase s = Suspended won \<longrightarrow> pool_todo s \<noteq> [])
     \<and> (pool_phase s = Returned \<longrightarrow> pool_todo s = [] \<and> (\<forall>sl\<in>set (pool_y s). rejection sl = None))"


text \<open>An entry stands for a result of the mapper; entry \<open>i\<close> stands for that of element \<open>i\<close>.\<close>

fun slot_of :: "val result \<Rightarrow> slot \<Rightarrow> bool" where
  "slot_of r (Direct v) = (r = Inr v \<and> \<not> isPromise v)"
| "slot_of r (InFlight st) = (r = Inr (Promise st))"
| "slot_of r (Finished st) = (r = Inr (Promise st))"

definition placed :: "(val \<Rightarrow> val result) \<Rightarrow> val list \<Rightarrow> pool \<Rightarrow> bool" where
  "placed f xs s \<longleftrightarrow>
     pool_todo s = drop (length (pool_y s)) xs
     \<and> length (pool_y s) \<le> length xs
     \<and> (\<forall>i<length (pool_y s). slot_of (f (xs ! i)) (pool_y s ! i))"

text \<open>
  A scheduler, to show that runs end: it lets the function run whenever it can, and
  otherwise settles the oldest entry of the set. \<open>drive\<close> gives its first \<open>k\<close> events.
\<close>

definition next_event :: "pool \<Rightarrow> event option" where
  "next_event s =
     (case pool_phase s of
        Running \<Rightarrow> Some Tick
      | Suspended won \<Rightarrow>
          (if won then Some Tick
           else (case pool_promises s of [] \<Rightarrow> None | i # _ \<Rightarrow> Some (Settle i)))
      | Returned \<Rightarrow> (case pool_promises s of [] \<Rightarrow> None | i # _ \<Rightarrow> Some (Settle i))
      | Failed e \<Rightarrow> None)"

fun drive :: "int \<Rightarrow> (val \<Rightarrow> val result) \<Rightarrow> nat \<Rightarrow> pool \<Rightarrow> event list" where
  "drive limit f 0 s = []"
| "drive limit f (Suc k) s =
     (case next_event s of
        None \<Rightarrow> []
      | Some ev \<Rightarrow>
          (case step limit f ev s of None \<Rightarrow> [] | Some s' \<Rightarrow> ev # drive limit f k s'))"

text \<open>
  The mapper returns on the element, and what it returns is a value or a promise that
  fulfils.
\<close>

definition fulfils :: "val result \<Rightarrow> bool" where
  "fulfils r =
     (case r of
        Inl e \<Rightarrow> False
      | Inr v \<Rightarrow> (case v of Promise (Reject e) \<Rightarrow> False | SyncThenable w \<Rightarrow> False | _ \<Rightarrow> True))"

text \<open>A state without failure, and a bound on the events that are still possible.\<close>

definition healthy :: "int \<Rightarrow> (val \<Rightarrow> val result) \<Rightarrow> pool \<Rightarrow> bool" where
  "healthy limit f s \<longleftrightarrow>
     tidy limit s
     \<and> (\<forall>sl\<in>set (pool_y s). rejection sl = None \<and> (\<forall>e. sl \<noteq> InFlight (Reject e)))
     \<and> (\<forall>x\<in>set (pool_todo s). fulfils (f x))
     \<and> (\<forall>e. pool_phase s \<noteq> Failed e)"

definition remaining :: "pool \<Rightarrow> nat" where
  "remaining s =
     4 * length (pool_todo s) + 2 * length (pool_promises s)
     + (case pool_phase s of Running \<Rightarrow> 3 | Suspended won \<Rightarrow> (if won then 3 else 2) | _ \<Rightarrow> 0)"

section \<open>Notions used in the statements\<close>

text \<open>The elements that a predicate accepts synchronously.\<close>

definition passes :: "(val \<Rightarrow> val result) \<Rightarrow> val \<Rightarrow> bool" where
  "passes predicate xi = (case predicate xi of Inl e \<Rightarrow> False | Inr ok \<Rightarrow> truthy ok)"

text \<open>The generator that yields the given values and then goes on as \<open>g\<close>.\<close>

fun yields :: "val list \<Rightarrow> iter \<Rightarrow> iter" where
  "yields [] g = g"
| "yields (v # vs) g = Yield v (yields vs g)"

text \<open>The probe of a generator object, and the error of index.js, lines 966-970.\<close>

definition generator_object :: probe where
  "generator_object =
     plain_object\<lparr>js_constructor := C_other, iterator_fn := True, next_fn := True,
       iterator_in := True\<rparr>"

definition sync_generator_misuse :: val where
  "sync_generator_misuse = Error TypeError
     ''filter(f)(x); xi is an element of x; if x if the resulting iterator of a sync generator, f(xi) cannot return a Promise''"

definition cannot_be_empty :: val where
  "cannot_be_empty = Error TypeError ''reduce(...)(x); x cannot be empty''"

text \<open>Callbacks and inputs for the concrete instances.\<close>

definition add :: reducer where
  "add a b = (case (a, b) of (Num m, Num n) \<Rightarrow> Inr (Num (m + n)) | _ \<Rightarrow> Inr Undefined)"

definition is_odd :: "val \<Rightarrow> val" where
  "is_odd v = (case v of Num n \<Rightarrow> Bool (n mod 2 = 1) | _ \<Rightarrow> Bool False)"

definition double :: "val \<Rightarrow> val" where
  "double v = (case v of Num n \<Rightarrow> Num (2 * n) | _ \<Rightarrow> Num 0)"

definition odd_or_pending :: "val \<Rightarrow> val result" where
  "odd_or_pending v =
     (case v of
        Num n \<Rightarrow> Inr (if n = 4 then Promise (Fulfil (Bool True)) else Bool (n mod 2 = 1))
      | _ \<Rightarrow> Inr v)"

definition always :: "val \<Rightarrow> val result" where
  "always v = Inr (Bool True)"

definition keep :: reducer where
  "keep y xi = Inr y"

definition one_to_five :: "val list" where
  "one_to_five = [Num 1, Num 2, Num 3, Num 4, Num 5]"



text \<open>
  A mapper that returns 30 on 3 at once and a promise of ten times the number otherwise,
  two schedules for it over 1 to 5 with limit 2, which settle the promises in different
  orders, and the state in which both end.
\<close>

definition slow :: "val \<Rightarrow> val result" where
  "slow v =
     (case v of
        Num n \<Rightarrow> Inr (if n = 3 then Num 30 else Promise (Fulfil (Num (10 * n))))
      | _ \<Rightarrow> Inr v)"

definition in_order :: "event list" where
  "in_order = [Tick, Tick, Tick, Settle 0, Tick, Tick, Tick, Settle 1, Tick, Tick,
               Settle 3, Settle 4]"

definition out_of_order :: "event list" where
  "out_of_order = [Tick, Tick, Tick, Settle 1, Tick, Tick, Tick, Settle 3, Settle 0, Tick,
                   Tick, Settle 4]"

definition all_done :: pool where
  "all_done =
     \<lparr>pool_todo = [],
      pool_y = [Finished (Fulfil (Num 10)), Finished (Fulfil (Num 20)), Direct (Num 30),
                Finished (Fulfil (Num 40)), Finished (Fulfil (Num 50))],
      pool_promises = [], pool_phase = Returned\<rparr>"

text \<open>The state after the first three events of either schedule: the function waits.\<close>

definition two_in_flight :: pool where
  "two_in_flight =
     \<lparr>pool_todo = [Num 3, Num 4, Num 5],
      pool_y = [InFlight (Fulfil (Num 10)), InFlight (Fulfil (Num 20))],
      pool_promises = [0, 1], pool_phase = Suspended False\<rparr>"

text \<open>
  A mapper whose promises reject, and the state in which \<open>mapPoolArray\<close> ends with it
  over two elements under limit 1.
\<close>

definition failing :: "val \<Rightarrow> val result" where
  "failing v = Inr (Promise (Reject (Str ''no'')))"

definition rejected_stays :: pool where
  "rejected_stays =
     \<lparr>pool_todo = [Num 2], pool_y = [Finished (Reject (Str ''no''))],
      pool_promises = [0], pool_phase = Failed (Str ''no'')\<rparr>"





section \<open>Verification: dispatch\<close>

lemmas shape_preds = isIterable_def isAsyncIterable_def isFunction_def isArray_def isObject_def
  isSet_def isMap_def isTypedArray_def isString_def








section \<open>Verification: the unification helper\<close>

lemma await_plain: "\<not> isPromise v \<Longrightarrow> await v = Fulfil v"
  by (cases v) auto

lemma all_settled_iff: "all_settled vs = Inr ws \<longleftrightarrow> map await vs = map Fulfil ws"
proof (induction vs arbitrary: ws)
  case Nil
  then show ?case by auto
next
  case (Cons v vs)
  show ?case
  proof (cases "await v")
    case (Fulfil w)
    show ?thesis
    proof (cases "all_settled vs")
      case (Inl e)
      with Cons[of "tl ws"] Fulfil show ?thesis by (cases ws) auto
    next
      case (Inr us)
      with Cons[of us] Cons[of "tl ws"] Fulfil show ?thesis by (cases ws) auto
    qed
  next
    case (Reject e)
    then show ?thesis by (cases ws) auto
  qed
qed

text \<open>
  C8, as amended. For every sequence \<open>vs\<close> without a promise, \<open>possiblePromiseAll\<close> returns
  the sequence wrapped in a \<open>SyncThenable\<close>, whose \<open>then\<close> applies the continuation to the
  sequence at once and returns its result; if some element is a promise and the elements
  resolve to \<open>ws\<close>, it returns one promise of \<open>ws\<close>.
\<close>

theorem possiblePromiseAll_duality:
  "(\<not> list_ex isPromise vs \<longrightarrow>
      possiblePromiseAll vs = SyncThenable (Arr vs)
      \<and> possiblePromiseThen (possiblePromiseAll vs) func = func (Arr vs))
   \<and> (list_ex isPromise vs \<and> map await vs = map Fulfil ws \<longrightarrow>
      possiblePromiseAll vs = Promise (Fulfil (Arr ws)))"
  by (simp add: possiblePromiseAll_def possiblePromiseThen_def promiseAll_def
      all_settled_iff[symmetric])

theorem possiblePromiseAll_duality_witness:
  "\<not> list_ex isPromise [Num 1, Num 2]
   \<and> possiblePromiseAll [Num 1, Num 2] = SyncThenable (Arr [Num 1, Num 2])
   \<and> possiblePromiseThen (possiblePromiseAll [Num 1, Num 2]) Inr = Inr (Arr [Num 1, Num 2])
   \<and> list_ex isPromise [Num 1, Promise (Fulfil (Num 2))]
   \<and> possiblePromiseAll [Num 1, Promise (Fulfil (Num 2))]
       = Promise (Fulfil (Arr [Num 1, Num 2]))"
  using possiblePromiseAll_duality [of "[Num 1, Num 2]" Inr "[]"]
    possiblePromiseAll_duality [of "[Num 1, Promise (Fulfil (Num 2))]" Inr "[Num 1, Num 2]"]
  by (simp add: possiblePromiseThen_def)

text \<open>
  C8 as stated fails: on a sequence without a promise the result is not the sequence but
  a thenable object around it, which \<open>isPromise\<close> takes for a promise.
\<close>

theorem possiblePromiseAll_counterexample:
  "\<not> list_ex isPromise [Num 1, Num 2]
   \<and> possiblePromiseAll [Num 1, Num 2] \<noteq> Arr [Num 1, Num 2]
   \<and> isPromise (possiblePromiseAll [Num 1, Num 2])"
  by (simp add: possiblePromiseAll_def)

section \<open>Verification: reduce\<close>

lemmas operand_simps = array_operand_def object_operand_def async_operand_def
  plain_array_def plain_object_def primitive_number_def shape_preds

text \<open>
  C3, as amended. For every reducer \<open>fn\<close>, \<open>reduce(fn)\<close> on an empty container fails with
  the error \<open>x cannot be empty\<close>: thrown for an iterable and for a plain object, as the
  rejection of the returned promise for an asynchronous iterable. For every initial value
  \<open>v\<close> that is not \<open>undefined\<close> and not a promise, \<open>reduce(fn, v)\<close> on an empty iterable
  returns \<open>v\<close>; for a promise of such a \<open>v\<close> it returns a promise of \<open>v\<close>.
\<close>

theorem reduce_empty:
  "reduce (Callable fn) init = Inr (reduce_apply fn init)
   \<and> (isIterable (observed x) \<and> items x = [] \<longrightarrow>
        reduce_apply fn (Initial Undefined) x = Inl cannot_be_empty)
   \<and> (\<not> isIterable (observed x) \<and> isAsyncIterable (observed x) \<and> async_items x = [] \<longrightarrow>
        reduce_apply fn (Initial Undefined) x = Inr (Promise (Reject cannot_be_empty)))
   \<and> (\<not> isIterable (observed x) \<and> \<not> isAsyncIterable (observed x) \<and> isObject (observed x)
        \<and> enumerable x = [] \<longrightarrow>
        reduce_apply fn (Initial Undefined) x = Inl cannot_be_empty)
   \<and> (isIterable (observed x) \<and> items x = [] \<and> v \<noteq> Undefined \<and> \<not> isPromise v \<longrightarrow>
        reduce_apply fn (Initial v) x = Inr v
        \<and> reduce_apply fn (Initial (Promise (Fulfil v))) x = Inr (Promise (Fulfil v)))"
  by (simp add: reduce_def reduce_apply_def possiblePromiseThen_def reduceIterable_def
      reduceAsyncIterable_def reduceObject_def resolve_def await_plain cannot_be_empty_def)

theorem reduce_empty_witness:
  "reduce_apply add (Initial Undefined) (array_operand []) = Inl cannot_be_empty
   \<and> reduce_apply add (Initial Undefined) (async_operand [])
       = Inr (Promise (Reject cannot_be_empty))
   \<and> reduce_apply add (Initial Undefined) (object_operand []) = Inl cannot_be_empty
   \<and> reduce_apply add (Initial (Num 7)) (array_operand []) = Inr (Num 7)
   \<and> reduce_apply add (Initial (Promise (Fulfil (Num 7)))) (array_operand [])
       = Inr (Promise (Fulfil (Num 7)))"
  using reduce_empty [of add "Initial Undefined" "array_operand []" "Num 7"]
    reduce_empty [of add "Initial Undefined" "async_operand []" "Num 7"]
    reduce_empty [of add "Initial Undefined" "object_operand []" "Num 7"]
  by (simp add: operand_simps)

text \<open>
  C3 as stated fails: a promise of \<open>undefined\<close> is an initial value that is neither a
  function nor \<open>undefined\<close>, and \<open>reduce\<close> with it on the empty array does not succeed: it
  returns a promise rejected with \<open>x cannot be empty\<close>.
\<close>

theorem reduce_initial_counterexample:
  "Promise (Fulfil Undefined) \<noteq> Undefined
   \<and> reduce_apply add (Initial (Promise (Fulfil Undefined))) (array_operand [])
       = Inr (Promise (Reject cannot_be_empty))"
  by (simp add: reduce_apply_def possiblePromiseThen_def reduceIterable_def operand_simps
      cannot_be_empty_def)

text \<open>
  C10. For every container whose first element is \<open>undefined\<close>, \<open>reduce\<close> without an initial
  value fails with the error \<open>x cannot be empty\<close>, exactly as on the empty container of that
  shape: thrown for an iterable and for a plain object, as the rejection of the returned
  promise for an asynchronous iterable.
\<close>

theorem reduce_undefined_first:
  "(isIterable (observed x) \<and> items x = Undefined # rest \<longrightarrow>
        reduce_apply fn (Initial Undefined) x = Inl cannot_be_empty
        \<and> reduce_apply fn (Initial Undefined) x
            = reduce_apply fn (Initial Undefined) (x\<lparr>items := []\<rparr>))
   \<and> (\<not> isIterable (observed x) \<and> isAsyncIterable (observed x)
        \<and> async_items x = Undefined # rest \<longrightarrow>
        reduce_apply fn (Initial Undefined) x = Inr (Promise (Reject cannot_be_empty))
        \<and> reduce_apply fn (Initial Undefined) x
            = reduce_apply fn (Initial Undefined) (x\<lparr>async_items := []\<rparr>))
   \<and> (\<not> isIterable (observed x) \<and> \<not> isAsyncIterable (observed x) \<and> isObject (observed x)
        \<and> enumerable x = (k, Undefined) # others \<longrightarrow>
        reduce_apply fn (Initial Undefined) x = Inl cannot_be_empty
        \<and> reduce_apply fn (Initial Undefined) x
            = reduce_apply fn (Initial Undefined) (x\<lparr>enumerable := []\<rparr>))"
  by (simp add: reduce_apply_def possiblePromiseThen_def reduceIterable_def
      reduceAsyncIterable_def reduceObject_def resolve_def cannot_be_empty_def)

text \<open>The array \<open>[undefined, 1, 2]\<close> fails; without the first element the fold gives 3.\<close>

theorem reduce_undefined_first_witness:
  "reduce_apply add (Initial Undefined) (array_operand [Undefined, Num 1, Num 2])
     = Inl cannot_be_empty
   \<and> reduce_apply add (Initial Undefined) (async_operand [Undefined, Num 1])
     = Inr (Promise (Reject cannot_be_empty))
   \<and> reduce_apply add (Initial Undefined) (object_operand [(''a'', Undefined), (''b'', Num 1)])
     = Inl cannot_be_empty
   \<and> reduce_apply add (Initial Undefined) (array_operand [Num 1, Num 2]) = Inr (Num 3)"
  using reduce_undefined_first [of "array_operand [Undefined, Num 1, Num 2]" "[Num 1, Num 2]" add]
    reduce_undefined_first [of "async_operand [Undefined, Num 1]" "[Num 1]" add]
    reduce_undefined_first [of "object_operand [(''a'', Undefined), (''b'', Num 1)]" _ add
      "''a''" "[(''b'', Num 1)]"]
  by (simp add: operand_simps reduce_apply_def possiblePromiseThen_def reduceIterable_def
      add_def)

section \<open>Verification: the lazy filter\<close>

lemma drain_yields: "drain (yields vs g) = (vs @ fst (drain g), snd (drain g))"
  by (induction vs) (auto split: prod.splits)

lemma filterIterable_prefix:
  assumes "\<forall>xi\<in>set pre. \<exists>ok. predicate xi = Inr ok \<and> \<not> isPromise ok"
  shows "filterIterable predicate (pre @ rest)
         = yields (filter (passes predicate) pre) (filterIterable predicate rest)"
  using assms by (induction pre) (auto simp: passes_def)

text \<open>
  C7. Let a synchronous iterable deliver the elements \<open>pre\<close>, then \<open>bad\<close>, then \<open>post\<close>, where
  the predicate returns synchronously on \<open>pre\<close> and returns a promise on \<open>bad\<close>. Applying
  \<open>filter\<close> selects the lazy implementation and does not fail; the generator it returns
  yields the accepted elements of \<open>pre\<close> in order, and the pull after them throws the
  TypeError of the misuse.
\<close>

theorem filterIterable_lazy_error:
  assumes "\<forall>xi\<in>set pre. \<exists>ok. predicate xi = Inr ok \<and> \<not> isPromise ok"
    and "predicate bad = Inr ok" and "isPromise ok"
  shows "filter_apply generator_object = Inr IterableS
    \<and> filterIterable predicate (pre @ bad # post)
        = yields (filter (passes predicate) pre) (Throws sync_generator_misuse)
    \<and> drain (filterIterable predicate (pre @ bad # post))
        = (filter (passes predicate) pre, Some sync_generator_misuse)
    \<and> pull (Throws sync_generator_misuse) = (Inl sync_generator_misuse, Done)"
  using assms
  by (simp add: filterIterable_prefix drain_yields sync_generator_misuse_def
      filter_apply_def generator_object_def plain_object_def primitive_number_def shape_preds)

text \<open>Over 1 to 5 with a promise on 4: 1 and 3 are yielded, the third pull throws.\<close>

theorem filterIterable_lazy_error_witness:
  "filterIterable odd_or_pending one_to_five
     = Yield (Num 1) (Yield (Num 3) (Throws sync_generator_misuse))
   \<and> drain (filterIterable odd_or_pending one_to_five)
     = ([Num 1, Num 3], Some sync_generator_misuse)"
  using filterIterable_lazy_error [of "[Num 1, Num 2, Num 3]" odd_or_pending "Num 4"
      "Promise (Fulfil (Bool True))" "[Num 5]"]
  by (simp add: odd_or_pending_def passes_def one_to_five_def)

section \<open>Verification: transducers\<close>

lemma calls_total: "calls (\<lambda>x. Inr (g x)) xs = Inr (map g xs)"
  by (induction xs) auto

lemma mapArray_sync:
  "\<forall>x\<in>set xs. \<not> isPromise (g x) \<Longrightarrow> mapArray (\<lambda>x. Inr (g x)) xs = Inr (Arr (map g xs))"
  by (simp add: mapArray_def calls_total list_ex_iff)

lemma filter_zip_index:
  assumes "\<And>i. i < length xs \<Longrightarrow> Q i = P (xs ! i)"
  shows "map fst (filter (\<lambda>(xi, i). Q i) (zip xs [0 ..< length xs])) = filter P xs"
  using assms
proof (induction xs rule: rev_induct)
  case Nil
  then show ?case by simp
next
  case (snoc x xs)
  have "\<And>i. i < length xs \<Longrightarrow> Q i = P (xs ! i)"
    using snoc.prems[of i for i] by (simp add: nth_append)
  then have IH: "map fst (filter (\<lambda>(xi, i). Q i) (zip xs [0 ..< length xs])) = filter P xs"
    by (rule snoc.IH)
  have "Q (length xs) = P x"
    using snoc.prems[of "length xs"] by simp
  then show ?case using IH by simp
qed

lemma filter_by_index:
  "map fst (filter (\<lambda>(xi, i). truthy (js_index (Arr (map p xs)) i)) (zip xs [0 ..< length xs]))
   = filter (\<lambda>xi. truthy (p xi)) xs"
  by (rule filter_zip_index) simp

lemma filterArray_sync:
  "\<forall>x\<in>set xs. \<not> isPromise (p x) \<Longrightarrow>
   filterArray (\<lambda>x. Inr (p x)) xs = Inr (Arr (filter (\<lambda>xi. truthy (p xi)) xs))"
  by (simp add: filterArray_def createFilterIndex_def calls_total list_ex_iff
      possiblePromiseThen_def filter_by_index del: js_index.simps)

lemma composed_reducer:
  "\<not> isPromise (p xi) \<Longrightarrow> \<not> isPromise (f xi) \<Longrightarrow>
   filterReducer (\<lambda>x. Inr (p x)) (mapReducer (\<lambda>x. Inr (f x)) r) y xi
   = (if truthy (p xi) then r y (f xi) else Inr y)"
  by (simp add: filterReducer_def mapReducer_def possiblePromiseThen_def)

lemma reduceIterable_loop_push:
  assumes "\<forall>x\<in>set xs. \<not> isPromise (p x) \<and> \<not> isPromise (f x)"
  shows "reduceIterable_loop
           (filterReducer (\<lambda>x. Inr (p x)) (mapReducer (\<lambda>x. Inr (f x)) arrayPush)) (Arr acc) xs
         = Inr (Arr (acc @ map f (filter (\<lambda>xi. truthy (p xi)) xs)))"
  using assms by (induction xs arbitrary: acc) (auto simp: composed_reducer)

lemma reduceIterable_push:
  assumes "\<forall>x\<in>set xs. \<not> isPromise (p x) \<and> \<not> isPromise (f x)"
  shows "reduceIterable
           (filterReducer (\<lambda>x. Inr (p x)) (mapReducer (\<lambda>x. Inr (f x)) arrayPush)) (Arr []) xs
         = Inr (Arr (map f (filter (\<lambda>xi. truthy (p xi)) xs)))"
proof (cases xs)
  case Nil
  then show ?thesis by (simp add: reduceIterable_def)
next
  case (Cons a as)
  with assms have a: "\<not> isPromise (p a)" "\<not> isPromise (f a)"
    and as: "\<forall>x\<in>set as. \<not> isPromise (p x) \<and> \<not> isPromise (f x)" by auto
  show ?thesis
    using Cons a reduceIterable_loop_push[OF as, of "[]"] reduceIterable_loop_push[OF as, of "[f a]"]
    by (simp add: reduceIterable_def composed_reducer)
qed

text \<open>
  C6, as amended. Let the mapper \<open>f\<close> and the predicate \<open>p\<close> return synchronously. For every
  reducer \<open>r\<close> the composed reducer \<open>filter(p)(map(f)(r))\<close> applies \<open>p\<close> to the raw element,
  returns the accumulator unchanged when the result is falsy, and otherwise delegates to
  \<open>r\<close> with the mapped element. When \<open>r\<close> is the reducer that pushes its element onto the
  accumulator array, folding an array with the composed reducer from \<open>[]\<close> gives what
  \<open>map(f)\<close> gives on the array that \<open>filter(p)\<close> returns.
\<close>

theorem transducer_equivalence:
  assumes "\<forall>x. \<not> isPromise (p x)" and "\<forall>x. \<not> isPromise (f x)"
  shows "filterReducer (\<lambda>x. Inr (p x)) (mapReducer (\<lambda>x. Inr (f x)) r) y xi
           = (if truthy (p xi) then r y (f xi) else Inr y)
    \<and> filterArray (\<lambda>x. Inr (p x)) xs = Inr (Arr (filter (\<lambda>xi. truthy (p xi)) xs))
    \<and> reduce_apply (filterReducer (\<lambda>x. Inr (p x)) (mapReducer (\<lambda>x. Inr (f x)) arrayPush))
          (Initial (Arr [])) (array_operand xs)
        = mapArray (\<lambda>x. Inr (f x)) (filter (\<lambda>xi. truthy (p xi)) xs)
    \<and> mapArray (\<lambda>x. Inr (f x)) (filter (\<lambda>xi. truthy (p xi)) xs)
        = Inr (Arr (map f (filter (\<lambda>xi. truthy (p xi)) xs)))"
  using assms
  by (simp add: composed_reducer filterArray_sync mapArray_sync reduce_apply_def
      possiblePromiseThen_def reduceIterable_push operand_simps)

lemma is_odd_sync: "\<forall>x. \<not> isPromise (is_odd x)"
  by (simp add: is_odd_def split: val.splits)

lemma double_sync: "\<forall>x. \<not> isPromise (double x)"
  by (simp add: double_def split: val.splits)

text \<open>Doubling the odd numbers among 1 to 5 gives 2, 6, 10 either way.\<close>

theorem transducer_equivalence_witness:
  "(\<forall>x. \<not> isPromise (is_odd x)) \<and> (\<forall>x. \<not> isPromise (double x))
   \<and> filterArray (\<lambda>x. Inr (is_odd x)) one_to_five = Inr (Arr [Num 1, Num 3, Num 5])
   \<and> mapArray (\<lambda>x. Inr (double x)) [Num 1, Num 3, Num 5] = Inr (Arr [Num 2, Num 6, Num 10])
   \<and> reduce_apply
        (filterReducer (\<lambda>x. Inr (is_odd x)) (mapReducer (\<lambda>x. Inr (double x)) arrayPush))
        (Initial (Arr [])) (array_operand one_to_five)
      = Inr (Arr [Num 2, Num 6, Num 10])"
proof -
  have p: "\<forall>x. \<not> isPromise (is_odd x)" by (rule is_odd_sync)
  have f: "\<forall>x. \<not> isPromise (double x)" by (rule double_sync)
  have kept: "filter (\<lambda>xi. truthy (is_odd xi)) one_to_five = [Num 1, Num 3, Num 5]"
    by (simp add: one_to_five_def is_odd_def)
  show ?thesis
    using p f transducer_equivalence [OF p f, of arrayPush Undefined Undefined one_to_five]
    by (simp add: kept double_def)
qed

text \<open>
  C6 as stated fails for a reducer that does not collect its elements: with the reducer
  that keeps the accumulator, the predicate that accepts all and the identity mapper, the
  fold of 1 to 5 from \<open>[]\<close> gives \<open>[]\<close>, while \<open>map(f)(filter(p)(...))\<close> gives the five numbers.
\<close>

theorem transducer_reducer_counterexample:
  "reduce_apply (filterReducer always (mapReducer Inr keep)) (Initial (Arr []))
       (array_operand one_to_five) = Inr (Arr [])
   \<and> filterArray always one_to_five = Inr (Arr one_to_five)
   \<and> mapArray Inr one_to_five = Inr (Arr one_to_five)
   \<and> Arr [] \<noteq> Arr one_to_five"
  by (simp add: reduce_apply_def possiblePromiseThen_def reduceIterable_def operand_simps
      filterReducer_def mapReducer_def always_def keep_def one_to_five_def
      filterArray_def createFilterIndex_def mapArray_def)

section \<open>Verification: per-shape map\<close>




lemma all_settled_fulfilled:
  "\<forall>v\<in>set vs. await v = Fulfil (h v) \<Longrightarrow> all_settled vs = Inr (map h vs)"
  by (induction vs) auto



lemma set_set_add [simp]: "set (set_add y v) = insert v (set y)"
  by (auto simp: set_add_def)

lemma distinct_set_add [simp]: "distinct y \<Longrightarrow> distinct (set_add y v)"
  by (auto simp: set_add_def)

lemma set_foldl_set_add [simp]: "set (foldl set_add y vs) = set y \<union> set vs"
  by (induction vs arbitrary: y) auto

lemma distinct_foldl_set_add [simp]: "distinct y \<Longrightarrow> distinct (foldl set_add y vs)"
  by (induction vs arbitrary: y) auto


















section \<open>Verification: the pool mapper\<close>

lemma run_append:
  "run limit f (evs @ evs') s = (case run limit f evs s of None \<Rightarrow> None | Some s' \<Rightarrow> run limit f evs' s')"
  by (induction evs arbitrary: s) (auto split: option.splits)

lemma run_snoc:
  "run limit f (evs @ [ev]) s = Some s'' \<longleftrightarrow> (\<exists>s'. run limit f evs s = Some s' \<and> step limit f ev s' = Some s'')"
  by (auto simp: run_append split: option.splits)

lemma first_rejection_None: "first_rejection sls = None \<longleftrightarrow> (\<forall>sl\<in>set sls. rejection sl = None)"
  by (induction sls) (auto simp: first_rejection_def List.map_filter_simps split: option.splits list.splits)

lemma call_mapper_cases [consumes 1, case_names throws thenable pending direct]:
  assumes "pool_todo s = xi # rest"
  obtains (throws) e where "f xi = Inl e" "call_mapper f s = s\<lparr>pool_phase := Failed e\<rparr>"
  | (thenable) v where "f xi = Inr (SyncThenable v)"
      "call_mapper f s = s\<lparr>pool_phase := Failed (Error ReferenceError ''p is not initialized'')\<rparr>"
  | (pending) st where "f xi = Inr (Promise st)"
      "call_mapper f s = s\<lparr>pool_todo := rest, pool_y := pool_y s @ [InFlight st],
          pool_promises := pool_promises s @ [length (pool_y s)], pool_phase := Running\<rparr>"
  | (direct) yi where "f xi = Inr yi" "\<not> isPromise yi"
      "call_mapper f s = s\<lparr>pool_todo := rest, pool_y := pool_y s @ [Direct yi], pool_phase := Running\<rparr>"
proof (cases "f xi")
  case (Inl e)
  then show ?thesis using assms throws by (simp add: call_mapper_def)
next
  case (Inr yi)
  then show ?thesis using assms thenable pending direct
    by (cases yi) (simp_all add: call_mapper_def)
qed

lemma tidy_start: "1 \<le> limit \<Longrightarrow> tidy limit (start x)"
  by (simp add: tidy_def start_def)

lemma length_removeAll_distinct:
  "distinct ps \<Longrightarrow> i \<in> set ps \<Longrightarrow> length (removeAll i ps) = length ps - 1"
  by (simp add: distinct_remove1_removeAll[symmetric] length_remove1)

lemma tidyI:
  assumes "distinct (pool_promises s)"
    and "\<And>i. i \<in> set (pool_promises s) \<Longrightarrow> i < length (pool_y s)"
    and "\<And>i. i \<in> set (pool_promises s) \<Longrightarrow>
           in_flight (pool_y s ! i) \<or> rejection (pool_y s ! i) \<noteq> None"
    and "\<And>i. i < length (pool_y s) \<Longrightarrow> in_flight (pool_y s ! i) \<Longrightarrow> i \<in> set (pool_promises s)"
    and "\<And>i. i < length (pool_y s) \<Longrightarrow> rejection (pool_y s ! i) \<noteq> None \<Longrightarrow>
           i \<in> set (pool_promises s)"
    and "int (length (pool_promises s)) \<le> limit"
    and "pool_phase s = Suspended True \<Longrightarrow> int (length (pool_promises s)) < limit"
    and "pool_phase s = Suspended False \<Longrightarrow> limit \<le> int (length (pool_promises s))"
    and "\<And>won. pool_phase s = Suspended won \<Longrightarrow> pool_todo s \<noteq> []"
    and "pool_phase s = Returned \<Longrightarrow> pool_todo s = []"
    and "\<And>sl. pool_phase s = Returned \<Longrightarrow> sl \<in> set (pool_y s) \<Longrightarrow> rejection sl = None"
  shows "tidy limit s"
  unfolding tidy_def
proof (intro conjI ballI allI impI)
qed (use assms in blast)+

lemma tidyD:
  assumes "tidy limit s"
  shows "distinct (pool_promises s)"
    and "\<And>i. i \<in> set (pool_promises s) \<Longrightarrow> i < length (pool_y s)"
    and "\<And>i. i \<in> set (pool_promises s) \<Longrightarrow>
           in_flight (pool_y s ! i) \<or> rejection (pool_y s ! i) \<noteq> None"
    and "\<And>i. i < length (pool_y s) \<Longrightarrow> in_flight (pool_y s ! i) \<Longrightarrow> i \<in> set (pool_promises s)"
    and "\<And>i. i < length (pool_y s) \<Longrightarrow> rejection (pool_y s ! i) \<noteq> None \<Longrightarrow>
           i \<in> set (pool_promises s)"
    and "int (length (pool_promises s)) \<le> limit"
    and "pool_phase s = Suspended True \<Longrightarrow> int (length (pool_promises s)) < limit"
    and "pool_phase s = Suspended False \<Longrightarrow> limit \<le> int (length (pool_promises s))"
    and "\<And>won. pool_phase s = Suspended won \<Longrightarrow> pool_todo s \<noteq> []"
    and "pool_phase s = Returned \<Longrightarrow> pool_todo s = []"
    and "\<And>sl. pool_phase s = Returned \<Longrightarrow> sl \<in> set (pool_y s) \<Longrightarrow> rejection sl = None"
  using assms unfolding tidy_def by blast+

lemma tidy_phase:
  assumes "tidy limit s"
    and "ph = Suspended True \<Longrightarrow> int (length (pool_promises s)) < limit"
    and "ph = Suspended False \<Longrightarrow> limit \<le> int (length (pool_promises s))"
    and "\<And>won. ph = Suspended won \<Longrightarrow> pool_todo s \<noteq> []"
    and "ph = Returned \<Longrightarrow> pool_todo s = []"
    and "\<And>sl. ph = Returned \<Longrightarrow> sl \<in> set (pool_y s) \<Longrightarrow> rejection sl = None"
  shows "tidy limit (s\<lparr>pool_phase := ph\<rparr>)"
    (is "tidy limit ?s'")
proof (rule tidyI)
  note d = tidyD[OF assms(1)]
  show "distinct (pool_promises ?s')" using d(1) by simp
  show "i < length (pool_y ?s')" if "i \<in> set (pool_promises ?s')" for i
    using that d(2)[of i] by simp
  show "in_flight (pool_y ?s' ! i) \<or> rejection (pool_y ?s' ! i) \<noteq> None"
    if "i \<in> set (pool_promises ?s')" for i
    using that d(3)[of i] by simp
  show "i \<in> set (pool_promises ?s')" if "i < length (pool_y ?s')" "in_flight (pool_y ?s' ! i)" for i
    using that d(4)[of i] by simp
  show "i \<in> set (pool_promises ?s')"
    if "i < length (pool_y ?s')" "rejection (pool_y ?s' ! i) \<noteq> None" for i
    using that d(5)[of i] by simp
  show "int (length (pool_promises ?s')) \<le> limit" using d(6) by simp
  show "int (length (pool_promises ?s')) < limit" if "pool_phase ?s' = Suspended True"
    using that assms(2) by simp
  show "limit \<le> int (length (pool_promises ?s'))" if "pool_phase ?s' = Suspended False"
    using that assms(3) by simp
  show "pool_todo ?s' \<noteq> []" if "pool_phase ?s' = Suspended won" for won
    using that assms(4)[of won] by simp
  show "pool_todo ?s' = []" if "pool_phase ?s' = Returned"
    using that assms(5) by simp
  show "rejection sl = None" if "pool_phase ?s' = Returned" "sl \<in> set (pool_y ?s')" for sl
    using that assms(6)[of sl] by simp
qed


lemma tidy_append:
  assumes t: "tidy limit s" and lt: "int (length (pool_promises s)) < limit"
    and fl: "in_flight sl"
  shows "tidy limit (s\<lparr>pool_todo := rest, pool_y := pool_y s @ [sl],
                       pool_promises := pool_promises s @ [length (pool_y s)],
                       pool_phase := Running\<rparr>)"
    (is "tidy limit ?s'")
proof (rule tidyI)
  note d = tidyD[OF t]
  show "distinct (pool_promises ?s')" using d(1) d(2)[of "length (pool_y s)"] by auto
  show "i < length (pool_y ?s')" if "i \<in> set (pool_promises ?s')" for i
    using that d(2)[of i] by auto
  show "in_flight (pool_y ?s' ! i) \<or> rejection (pool_y ?s' ! i) \<noteq> None"
    if "i \<in> set (pool_promises ?s')" for i
  proof (cases "i = length (pool_y s)")
    case True then show ?thesis using fl by simp
  next
    case False
    with that have "i \<in> set (pool_promises s)" by simp
    then show ?thesis using d(2)[of i] d(3)[of i] by (simp add: nth_append)
  qed
  show "i \<in> set (pool_promises ?s')" if "i < length (pool_y ?s')" "in_flight (pool_y ?s' ! i)" for i
  proof (cases "i = length (pool_y s)")
    case True then show ?thesis by simp
  next
    case False
    with that(1) have "i < length (pool_y s)" by simp
    then show ?thesis using that(2) d(4)[of i] by (simp add: nth_append)
  qed
  show "i \<in> set (pool_promises ?s')"
    if "i < length (pool_y ?s')" "rejection (pool_y ?s' ! i) \<noteq> None" for i
  proof (cases "i = length (pool_y s)")
    case True then show ?thesis by simp
  next
    case False
    with that(1) have "i < length (pool_y s)" by simp
    then show ?thesis using that(2) d(5)[of i] by (simp add: nth_append)
  qed
  show "int (length (pool_promises ?s')) \<le> limit" using lt by simp
qed simp_all

lemma tidy_direct:
  assumes t: "tidy limit s" and fl: "\<not> in_flight sl" "rejection sl = None"
  shows "tidy limit (s\<lparr>pool_todo := rest, pool_y := pool_y s @ [sl], pool_phase := Running\<rparr>)"
    (is "tidy limit ?s'")
proof (rule tidyI)
  note d = tidyD[OF t]
  show "distinct (pool_promises ?s')" using d(1) by simp
  show "i < length (pool_y ?s')" if "i \<in> set (pool_promises ?s')" for i
    using that d(2)[of i] by auto
  show "in_flight (pool_y ?s' ! i) \<or> rejection (pool_y ?s' ! i) \<noteq> None"
    if "i \<in> set (pool_promises ?s')" for i
    using that d(2)[of i] d(3)[of i] by (simp add: nth_append)
  show "i \<in> set (pool_promises ?s')" if "i < length (pool_y ?s')" "in_flight (pool_y ?s' ! i)" for i
  proof (cases "i = length (pool_y s)")
    case True then show ?thesis using that(2) fl(1) by simp
  next
    case False
    with that(1) have "i < length (pool_y s)" by simp
    then show ?thesis using that(2) d(4)[of i] by (simp add: nth_append)
  qed
  show "i \<in> set (pool_promises ?s')"
    if "i < length (pool_y ?s')" "rejection (pool_y ?s' ! i) \<noteq> None" for i
  proof (cases "i = length (pool_y s)")
    case True then show ?thesis using that(2) fl(2) by simp
  next
    case False
    with that(1) have "i < length (pool_y s)" by simp
    then show ?thesis using that(2) d(5)[of i] by (simp add: nth_append)
  qed
  show "int (length (pool_promises ?s')) \<le> limit" using d(6) by simp
qed simp_all

lemma tidy_fulfilled:
  assumes t: "tidy limit s" and i: "i < length (pool_y s)" and fl: "in_flight (pool_y s ! i)"
    and ph: "ph = (case pool_phase s of Suspended won \<Rightarrow> Suspended True | p \<Rightarrow> p)"
  shows "tidy limit (s\<lparr>pool_y := (pool_y s)[i := Finished (Fulfil res)],
                       pool_promises := removeAll i (pool_promises s),
                       pool_phase := ph\<rparr>)"
    (is "tidy limit ?s'")
proof (rule tidyI)
  note d = tidyD[OF t]
  have mem: "i \<in> set (pool_promises s)" using d(4)[OF i fl] .
  have len: "length (removeAll i (pool_promises s)) = length (pool_promises s) - 1"
    using d(1) mem by (rule length_removeAll_distinct)
  have pos: "length (pool_promises s) > 0" using mem by (cases "pool_promises s") auto
  have lt: "int (length (removeAll i (pool_promises s))) < int (length (pool_promises s))"
    using len pos by simp
  show "distinct (pool_promises ?s')" using d(1) by (simp add: distinct_removeAll)
  show "j < length (pool_y ?s')" if "j \<in> set (pool_promises ?s')" for j
    using that d(2)[of j] by simp
  show "in_flight (pool_y ?s' ! j) \<or> rejection (pool_y ?s' ! j) \<noteq> None"
    if "j \<in> set (pool_promises ?s')" for j
    using that d(2)[of j] d(3)[of j] by (simp add: nth_list_update)
  show "j \<in> set (pool_promises ?s')" if "j < length (pool_y ?s')" "in_flight (pool_y ?s' ! j)" for j
    using that d(4)[of j] by (cases "j = i") (simp_all add: nth_list_update)
  show "j \<in> set (pool_promises ?s')"
    if "j < length (pool_y ?s')" "rejection (pool_y ?s' ! j) \<noteq> None" for j
    using that d(5)[of j] by (cases "j = i") (simp_all add: nth_list_update)
  show "int (length (pool_promises ?s')) \<le> limit" using lt d(6) by simp
  show "int (length (pool_promises ?s')) < limit" if "pool_phase ?s' = Suspended True"
    using lt d(6) by simp
  show "limit \<le> int (length (pool_promises ?s'))" if "pool_phase ?s' = Suspended False"
    using that ph by (cases "pool_phase s") simp_all
  show "pool_todo ?s' \<noteq> []" if "pool_phase ?s' = Suspended won" for won
    using that ph d(9) by (cases "pool_phase s") simp_all
  show "pool_todo ?s' = []" if "pool_phase ?s' = Returned"
    using that ph d(10) by (cases "pool_phase s") simp_all
  show "rejection sl = None" if "pool_phase ?s' = Returned" "sl \<in> set (pool_y ?s')" for sl
  proof -
    from that(1) ph have r: "pool_phase s = Returned" by (cases "pool_phase s") simp_all
    from that(2) have "sl \<in> insert (Finished (Fulfil res)) (set (pool_y s))"
      using set_update_subset_insert[of "pool_y s" i] by auto
    then show ?thesis using d(11)[OF r, of sl] by auto
  qed
qed

lemma tidy_rejected:
  assumes t: "tidy limit s" and i: "i < length (pool_y s)" and fl: "in_flight (pool_y s ! i)"
    and ph: "ph = (case pool_phase s of
                     Suspended won \<Rightarrow> (if won then Suspended True else Failed e)
                   | Returned \<Rightarrow> Failed e
                   | p \<Rightarrow> p)"
  shows "tidy limit (s\<lparr>pool_y := (pool_y s)[i := Finished (Reject e)], pool_phase := ph\<rparr>)"
    (is "tidy limit ?s'")
proof (rule tidyI)
  note d = tidyD[OF t]
  have mem: "i \<in> set (pool_promises s)" using d(4)[OF i fl] .
  show "distinct (pool_promises ?s')" using d(1) by simp
  show "j < length (pool_y ?s')" if "j \<in> set (pool_promises ?s')" for j
    using that d(2)[of j] by simp
  show "in_flight (pool_y ?s' ! j) \<or> rejection (pool_y ?s' ! j) \<noteq> None"
    if "j \<in> set (pool_promises ?s')" for j
    using that d(2)[of j] d(3)[of j] by (cases "j = i") (simp_all add: nth_list_update)
  show "j \<in> set (pool_promises ?s')" if "j < length (pool_y ?s')" "in_flight (pool_y ?s' ! j)" for j
    using that d(4)[of j] by (cases "j = i") (simp_all add: nth_list_update)
  show "j \<in> set (pool_promises ?s')"
    if "j < length (pool_y ?s')" "rejection (pool_y ?s' ! j) \<noteq> None" for j
    using that d(5)[of j] mem by (cases "j = i") (simp_all add: nth_list_update)
  show "int (length (pool_promises ?s')) \<le> limit" using d(6) by simp
  show "int (length (pool_promises ?s')) < limit" if "pool_phase ?s' = Suspended True"
    using that ph d(7) by (cases "pool_phase s") (simp_all split: if_splits)
  show "limit \<le> int (length (pool_promises ?s'))" if "pool_phase ?s' = Suspended False"
    using that ph by (cases "pool_phase s") (simp_all split: if_splits)
  show "pool_todo ?s' \<noteq> []" if "pool_phase ?s' = Suspended won" for won
    using that ph d(9) by (cases "pool_phase s") (simp_all split: if_splits)
  show "pool_todo ?s' = []" if "pool_phase ?s' = Returned"
    using that ph by (cases "pool_phase s") (simp_all split: if_splits)
  show "rejection sl = None" if "pool_phase ?s' = Returned" "sl \<in> set (pool_y ?s')" for sl
    using that(1) ph by (cases "pool_phase s") (simp_all split: if_splits)
qed

lemma tidy_call_mapper:
  assumes "tidy limit s" "pool_todo s \<noteq> []" "int (length (pool_promises s)) < limit"
  shows "tidy limit (call_mapper f s)"
proof -
  obtain xi rest where todo: "pool_todo s = xi # rest" using assms(2) by (cases "pool_todo s") auto
  show ?thesis
    using todo
  proof (cases rule: call_mapper_cases[where f = f])
    case (throws e)
    then show ?thesis using tidy_phase[OF assms(1), of "Failed e"] by simp
  next
    case (thenable v)
    then show ?thesis
      using tidy_phase[OF assms(1), of "Failed (Error ReferenceError ''p is not initialized'')"]
      by simp
  next
    case (pending st)
    then show ?thesis using tidy_append[OF assms(1,3), of "InFlight st" rest] by simp
  next
    case (direct yi)
    then show ?thesis using tidy_direct[OF assms(1), of "Direct yi" rest] by simp
  qed
qed

lemma tidy_step:
  assumes "tidy limit s" "step limit f ev s = Some s'"
  shows "tidy limit s'"
proof (cases ev)
  case Tick
  note d = tidyD[OF assms(1)]
  show ?thesis
  proof (cases "pool_phase s")
    case Running
    show ?thesis
    proof (cases "pool_todo s = []")
      case True
      show ?thesis
      proof (cases "first_rejection (pool_y s)")
        case None
        then have s': "s' = s\<lparr>pool_phase := Returned\<rparr>"
          using assms(2) Tick Running True by (simp add: step_def)
        from None have "\<forall>sl\<in>set (pool_y s). rejection sl = None"
          by (simp add: first_rejection_None)
        then show ?thesis unfolding s' using True by (intro tidy_phase[OF assms(1)]) simp_all
      next
        case (Some e)
        then have s': "s' = s\<lparr>pool_phase := Failed e\<rparr>"
          using assms(2) Tick Running True by (simp add: step_def)
        show ?thesis unfolding s' by (intro tidy_phase[OF assms(1)]) simp_all
      qed
    next
      case False
      show ?thesis
      proof (cases "int (length (pool_promises s)) \<ge> limit")
        case True
        show ?thesis
        proof (cases "first_rejection (map (\<lambda>i. pool_y s ! i) (pool_promises s))")
          case None
          then have s': "s' = s\<lparr>pool_phase := Suspended False\<rparr>"
            using assms(2) Tick Running False True by (simp add: step_def)
          show ?thesis unfolding s' using False True by (intro tidy_phase[OF assms(1)]) simp_all
        next
          case (Some e)
          then have s': "s' = s\<lparr>pool_phase := Failed e\<rparr>"
            using assms(2) Tick Running False True by (simp add: step_def)
          show ?thesis unfolding s' by (intro tidy_phase[OF assms(1)]) simp_all
        qed
      next
        case lt: False
        then have "s' = call_mapper f s"
          using assms(2) Tick Running False by (simp add: step_def)
        then show ?thesis using tidy_call_mapper[OF assms(1) False, of f] lt by simp
      qed
    qed
  next
    case (Suspended won)
    then have won: "won" and s': "s' = call_mapper f s"
      using assms(2) Tick by (simp_all add: step_def split: if_splits)
    show ?thesis unfolding s'
      using d(7) d(9)[of won] Suspended won by (intro tidy_call_mapper[OF assms(1)]) simp_all
  qed (use assms Tick in \<open>simp_all add: step_def\<close>)
next
  case (Settle i)
  from assms Settle have i: "i < length (pool_y s)" and nr: "pool_phase s \<noteq> Running"
    by (auto simp: step_def split: if_splits)
  from assms Settle i nr obtain st where fl: "pool_y s ! i = InFlight st"
    by (auto simp: step_def split: slot.splits)
  then have inf: "in_flight (pool_y s ! i)" by simp
  show ?thesis
  proof (cases st)
    case (Fulfil res)
    have s': "s' = s\<lparr>pool_y := (pool_y s)[i := Finished (Fulfil res)],
                         pool_promises := removeAll i (pool_promises s),
                         pool_phase := (case pool_phase s of
                                          Suspended won \<Rightarrow> Suspended True
                                        | ph \<Rightarrow> ph)\<rparr>"
      using assms Settle i nr fl Fulfil by (simp add: step_def)
    show ?thesis unfolding s' by (rule tidy_fulfilled[OF assms(1) i inf refl])
  next
    case (Reject e)
    have s': "s' = s\<lparr>pool_y := (pool_y s)[i := Finished (Reject e)],
                         pool_phase := (case pool_phase s of
                                          Suspended won \<Rightarrow> (if won then Suspended True else Failed e)
                                        | Returned \<Rightarrow> Failed e
                                        | ph \<Rightarrow> ph)\<rparr>"
      using assms Settle i nr fl Reject by (simp add: step_def)
    show ?thesis unfolding s' by (rule tidy_rejected[OF assms(1) i inf refl])
  qed
qed

lemma tidy_run:
  assumes "1 \<le> limit" "run limit f evs (start x) = Some s"
  shows "tidy limit s"
  using assms(2)
proof (induction evs arbitrary: s rule: rev_induct)
  case Nil
  then show ?case using tidy_start[OF assms(1)] by auto
next
  case (snoc ev evs)
  then show ?case using tidy_step by (auto simp: run_snoc)
qed

lemma step_Tick_cases:
  assumes "step limit f Tick s = Some s'"
  shows "(\<exists>ph. s' = s\<lparr>pool_phase := ph\<rparr>) \<or> (pool_todo s \<noteq> [] \<and> s' = call_mapper f s)"
proof (cases "pool_todo s = []")
  case True
  then have cm: "call_mapper f s = s"
    by (simp add: call_mapper_def)
  have same: "\<exists>ph. s = s\<lparr>pool_phase := ph\<rparr>"
    by (rule exI[of _ "pool_phase s"]) simp
  have "s' = s \<or> (\<exists>ph. s' = s\<lparr>pool_phase := ph\<rparr>)"
    using assms True cm
    by (auto simp: step_def split: phase.splits if_splits option.splits)
  then show ?thesis using same by auto
next
  case False
  then show ?thesis using assms
    by (auto simp: step_def split: phase.splits if_splits option.splits)
qed

lemma step_Settle_cases:
  assumes "step limit f (Settle i) s = Some s'"
  shows "i < length (pool_y s) \<and> (\<exists>st ph. pool_y s ! i = InFlight st
      \<and> pool_y s' = (pool_y s)[i := Finished st] \<and> pool_todo s' = pool_todo s
      \<and> (pool_promises s' = pool_promises s \<or> pool_promises s' = removeAll i (pool_promises s)))"
  using assms by (auto simp: step_def split: if_splits slot.splits settle.splits)

lemma call_mapper_y:
  assumes "pool_todo s = xi # rest"
  shows "(call_mapper f s = s\<lparr>pool_phase := pool_phase (call_mapper f s)\<rparr>)
       \<or> (pool_todo (call_mapper f s) = rest
          \<and> (\<exists>sl. pool_y (call_mapper f s) = pool_y s @ [sl] \<and> slot_of (f xi) sl
                \<and> (\<forall>st. sl \<noteq> Finished st)))"
  using assms
proof (cases rule: call_mapper_cases[where f = f])
qed auto



lemma drop_eq_Cons:
  assumes "drop n xs = x # rest"
  shows "n < length xs \<and> xs ! n = x \<and> drop (Suc n) xs = rest"
proof -
  have n: "n < length xs" using assms by (cases "n < length xs") auto
  from Cons_nth_drop_Suc[OF n] assms show ?thesis using n by simp
qed

lemma placed_step:
  assumes "placed f xs s" "step limit f ev s = Some s'"
  shows "placed f xs s'"
proof (cases ev)
  case Tick
  from step_Tick_cases[of limit f s s'] assms Tick
  consider ph where "s' = s\<lparr>pool_phase := ph\<rparr>"
    | "pool_todo s \<noteq> []" "s' = call_mapper f s" by auto
  then show ?thesis
  proof cases
    case 1
    then show ?thesis using assms(1) by (simp add: placed_def)
  next
    case 2
    then obtain xi rest where todo: "pool_todo s = xi # rest" by (cases "pool_todo s") auto
    then have d: "length (pool_y s) < length xs" "xs ! length (pool_y s) = xi"
        "drop (Suc (length (pool_y s))) xs = rest"
      using assms(1) drop_eq_Cons[of "length (pool_y s)" xs xi rest] by (auto simp: placed_def)
    from call_mapper_y[OF todo, of f] show ?thesis
    proof
      assume *: "call_mapper f s = s\<lparr>pool_phase := pool_phase (call_mapper f s)\<rparr>"
      have "pool_y s' = pool_y s" "pool_todo s' = pool_todo s"
        using 2 * by (metis pool.select_convs pool.surjective pool.update_convs(4))+
      then show ?thesis using assms(1) by (simp add: placed_def)
    next
      assume "pool_todo (call_mapper f s) = rest
          \<and> (\<exists>sl. pool_y (call_mapper f s) = pool_y s @ [sl] \<and> slot_of (f xi) sl
                \<and> (\<forall>st. sl \<noteq> Finished st))"
      then obtain sl where "pool_todo s' = rest" "pool_y s' = pool_y s @ [sl]" "slot_of (f xi) sl"
        using 2 by auto
      then show ?thesis using assms(1) d
        by (auto simp: placed_def nth_append less_Suc_eq)
    qed
  qed
next
  case (Settle j)
  from step_Settle_cases[of limit f j s s'] assms Settle
  obtain st where "j < length (pool_y s)" "pool_y s ! j = InFlight st"
    "pool_y s' = (pool_y s)[j := Finished st]" "pool_todo s' = pool_todo s" by auto
  then show ?thesis using assms(1)
    by (auto simp: placed_def nth_list_update)
qed

lemma placed_run:
  assumes "run limit f evs (start xs) = Some s"
  shows "placed f xs s"
  using assms
proof (induction evs arbitrary: s rule: rev_induct)
  case Nil
  then show ?case by (auto simp: placed_def start_def)
next
  case (snoc ev evs)
  then show ?case using placed_step by (auto simp: run_snoc)
qed

lemma settlement_Fulfil:
  assumes "settlement s = Some (Fulfil r)"
  shows "pool_phase s = Returned \<and> \<not> list_ex in_flight (pool_y s)
         \<and> r = Arr (map slot_value (pool_y s))"
  using assms by (auto simp: settlement_def split: phase.splits if_splits)




lemma step_Settle_Fulfil:
  assumes "pool_phase s \<noteq> Running" "i < length (pool_y s)" "pool_y s ! i = InFlight (Fulfil res)"
  shows "step limit f (Settle i) s =
     Some (s\<lparr>pool_y := (pool_y s)[i := Finished (Fulfil res)],
              pool_promises := removeAll i (pool_promises s),
              pool_phase := (case pool_phase s of Suspended won \<Rightarrow> Suspended True | ph \<Rightarrow> ph)\<rparr>)"
  using assms by (simp add: step_def)





lemmas pool_eval = start_def one_to_five_def step_def call_mapper_def slow_def
  first_rejection_def all_done_def two_in_flight_def

lemma run_in_order: "run 2 slow in_order (start one_to_five) = Some all_done"
  by (simp add: in_order_def pool_eval)

lemma run_out_of_order: "run 2 slow out_of_order (start one_to_five) = Some all_done"
  by (simp add: out_of_order_def pool_eval)


lemma settlement_all_done:
  "settlement all_done = Some (Fulfil (Arr [Num 10, Num 20, Num 30, Num 40, Num 50]))"
  by (simp add: settlement_def all_done_def)




















lemma run_failing: "run 1 failing [Tick, Tick, Settle 0] (start [Num 1, Num 2]) = Some rejected_stays"
  by (simp add: start_def step_def call_mapper_def failing_def first_rejection_def
      rejected_stays_def List.map_filter_simps)






text \<open>
  C4 as stated fails for an entry whose promise rejects: with limit 1 over two elements
  and a mapper whose promises reject, the function suspends on the first entry, the entry
  rejects, and the run is over with the rejection while the entry is still in the set. It
  is removed by no continuation, not exactly once.
\<close>

theorem pool_rejected_counterexample:
  "run 1 failing [Tick, Tick, Settle 0] (start [Num 1, Num 2]) = Some rejected_stays
   \<and> settlement rejected_stays = Some (Reject (Str ''no''))
   \<and> 0 \<in> set (pool_promises rejected_stays)
   \<and> (\<forall>ev. step 1 failing ev rejected_stays = None)"
proof -
  have "step 1 failing ev rejected_stays = None" for ev
    by (cases ev) (simp_all add: step_def rejected_stays_def)
  then show ?thesis
    using run_failing by (simp add: settlement_def rejected_stays_def)
qed

lemma pool_positions:
  assumes "1 \<le> limit" and "run limit f evs (start xs) = Some s"
    and "settlement s = Some (Fulfil r)"
  shows "\<exists>vs. r = Arr vs \<and> length vs = length xs
           \<and> (\<forall>i<length xs. \<exists>yi. f (xs ! i) = Inr yi \<and> await yi = Fulfil (vs ! i))"
proof -
  have t: "tidy limit s" using assms(1,2) by (rule tidy_run)
  have p: "placed f xs s" using assms(2) by (rule placed_run)
  from settlement_Fulfil[OF assms(3)] have ret: "pool_phase s = Returned"
    and nf: "\<forall>sl\<in>set (pool_y s). \<not> in_flight sl"
    and r: "r = Arr (map slot_value (pool_y s))" by (auto simp: list_ex_iff)
  have nr: "\<forall>sl\<in>set (pool_y s). rejection sl = None" using tidyD(11)[OF t ret] by blast
  have todo: "pool_todo s = []" using tidyD(10)[OF t ret] .
  have len: "length (pool_y s) = length xs" using p todo by (auto simp: placed_def)
  have "\<exists>yi. f (xs ! i) = Inr yi \<and> await yi = Fulfil (map slot_value (pool_y s) ! i)"
    if i: "i < length xs" for i
  proof -
    from p i len have so: "slot_of (f (xs ! i)) (pool_y s ! i)" by (simp add: placed_def)
    from nf nr i len have "\<not> in_flight (pool_y s ! i)" "rejection (pool_y s ! i) = None"
      by (metis nth_mem)+
    then show ?thesis using so i len
      by (cases "pool_y s ! i" rule: rejection.cases) (auto simp: await_plain)
  qed
  then show ?thesis using r len by auto
qed


lemma healthy_tidy: "healthy limit f s \<Longrightarrow> tidy limit s"
  by (simp add: healthy_def)

lemma healthy_call_mapper:
  assumes h: "healthy limit f s" and todo: "pool_todo s \<noteq> []"
    and room: "int (length (pool_promises s)) < limit"
  shows "healthy limit f (call_mapper f s)
       \<and> 4 * length (pool_todo (call_mapper f s)) + 2 * length (pool_promises (call_mapper f s)) + 2
           \<le> 4 * length (pool_todo s) + 2 * length (pool_promises s)
       \<and> pool_phase (call_mapper f s) = Running"
proof -
  obtain xi rest where xs: "pool_todo s = xi # rest" using todo by (cases "pool_todo s") auto
  have t: "tidy limit (call_mapper f s)"
    using healthy_tidy[OF h] todo room by (rule tidy_call_mapper)
  have ok: "fulfils (f xi)" using h xs by (simp add: healthy_def)
  have rest: "\<forall>x\<in>set rest. fulfils (f x)" using h xs by (simp add: healthy_def)
  have sl: "\<forall>sl\<in>set (pool_y s). rejection sl = None \<and> (\<forall>e. sl \<noteq> InFlight (Reject e))"
    using h by (simp add: healthy_def)
  from xs show ?thesis
  proof (cases rule: call_mapper_cases[where f = f])
    case (throws e)
    then show ?thesis using ok by (simp add: fulfils_def)
  next
    case (thenable v)
    then show ?thesis using ok by (simp add: fulfils_def)
  next
    case (pending st)
    from pending(1) ok obtain res where st: "st = Fulfil res"
      by (cases st) (auto simp: fulfils_def)
    show ?thesis using t rest sl xs unfolding pending(2) st
      by (simp add: healthy_def)
  next
    case (direct yi)
    show ?thesis using t rest sl xs unfolding direct(3)
      by (simp add: healthy_def)
  qed
qed

lemma healthy_settle:
  assumes h: "healthy limit f s" and ps: "pool_promises s = i # others"
    and ph: "pool_phase s = Suspended False \<or> pool_phase s = Returned"
  shows "\<exists>s'. step limit f (Settle i) s = Some s' \<and> healthy limit f s'
              \<and> remaining s' < remaining s"
proof -
  have t: "tidy limit s" using h by (rule healthy_tidy)
  have mem: "i \<in> set (pool_promises s)" using ps by simp
  have i: "i < length (pool_y s)"
    and fr: "in_flight (pool_y s ! i) \<or> rejection (pool_y s ! i) \<noteq> None"
    using tidyD(2)[OF t mem] tidyD(3)[OF t mem] by simp_all
  have sl: "\<forall>sl\<in>set (pool_y s). rejection sl = None \<and> (\<forall>e. sl \<noteq> InFlight (Reject e))"
    using h by (simp add: healthy_def)
  from sl i have nr: "rejection (pool_y s ! i) = None" "\<forall>e. pool_y s ! i \<noteq> InFlight (Reject e)"
    by (metis nth_mem)+
  with fr obtain res where fl: "pool_y s ! i = InFlight (Fulfil res)"
    by (cases "pool_y s ! i" rule: in_flight.cases) (auto, metis settle.exhaust)
  have run: "pool_phase s \<noteq> Running" using ph by auto
  define s' where "s' = s\<lparr>pool_y := (pool_y s)[i := Finished (Fulfil res)],
              pool_promises := removeAll i (pool_promises s),
              pool_phase := (case pool_phase s of Suspended won \<Rightarrow> Suspended True | ph \<Rightarrow> ph)\<rparr>"
  have st: "step limit f (Settle i) s = Some s'"
    unfolding s'_def using run i fl by (rule step_Settle_Fulfil)
  have t': "tidy limit s'" using t st by (rule tidy_step)
  have len: "length (removeAll i (pool_promises s)) = length (pool_promises s) - 1"
    using tidyD(1)[OF t] mem by (rule length_removeAll_distinct)
  have slots: "\<forall>sl\<in>set (pool_y s'). rejection sl = None \<and> (\<forall>e. sl \<noteq> InFlight (Reject e))"
    using sl by (auto simp: s'_def dest!: set_update_subset_insert[THEN subsetD])
  have h': "healthy limit f s'"
    using t' slots h ph by (auto simp: healthy_def s'_def)
  have "remaining s' < remaining s"
    using ph ps len by (auto simp: remaining_def s'_def)
  with st h' show ?thesis by blast
qed

lemma healthy_next:
  assumes h: "healthy limit f s" and ev: "next_event s = Some ev"
  shows "\<exists>s'. step limit f ev s = Some s' \<and> healthy limit f s' \<and> remaining s' < remaining s"
proof -
  have t: "tidy limit s" using h by (rule healthy_tidy)
  have sl: "\<forall>sl\<in>set (pool_y s). rejection sl = None"
    using h by (simp add: healthy_def)
  show ?thesis
  proof (cases "pool_phase s")
    case Running
    then have tick: "ev = Tick" using ev by (simp add: next_event_def)
    show ?thesis
    proof (cases "pool_todo s = []")
      case True
      have fr: "first_rejection (pool_y s) = None" using sl by (simp add: first_rejection_None)
      have st: "step limit f Tick s = Some (s\<lparr>pool_phase := Returned\<rparr>)"
        using Running True fr by (simp add: step_def)
      have "healthy limit f (s\<lparr>pool_phase := Returned\<rparr>)"
        using tidy_step[OF t st] h by (simp add: healthy_def)
      moreover have "remaining (s\<lparr>pool_phase := Returned\<rparr>) < remaining s"
        using Running by (simp add: remaining_def)
      ultimately show ?thesis using st tick by blast
    next
      case False
      show ?thesis
      proof (cases "limit \<le> int (length (pool_promises s))")
        case True
        have "\<forall>i\<in>set (pool_promises s). rejection (pool_y s ! i) = None"
        proof
          fix i assume "i \<in> set (pool_promises s)"
          from tidyD(2)[OF t this] have "pool_y s ! i \<in> set (pool_y s)" by simp
          with sl show "rejection (pool_y s ! i) = None" by blast
        qed
        then have fr: "first_rejection (map (\<lambda>i. pool_y s ! i) (pool_promises s)) = None"
          by (simp add: first_rejection_None)
        have st: "step limit f Tick s = Some (s\<lparr>pool_phase := Suspended False\<rparr>)"
          using Running False True fr by (simp add: step_def)
        have "healthy limit f (s\<lparr>pool_phase := Suspended False\<rparr>)"
          using tidy_step[OF t st] h by (simp add: healthy_def)
        moreover have "remaining (s\<lparr>pool_phase := Suspended False\<rparr>) < remaining s"
          using Running by (simp add: remaining_def)
        ultimately show ?thesis using st tick by blast
      next
        case room: False
        have st: "step limit f Tick s = Some (call_mapper f s)"
          using Running False room by (simp add: step_def)
        from healthy_call_mapper[OF h False] room
        have "healthy limit f (call_mapper f s)" "remaining (call_mapper f s) < remaining s"
          using Running by (auto simp: remaining_def)
        then show ?thesis using st tick by blast
      qed
    qed
  next
    case (Suspended won)
    show ?thesis
    proof (cases won)
      case True
      then have tick: "ev = Tick" using ev Suspended by (simp add: next_event_def)
      have sus: "pool_phase s = Suspended True" using Suspended True by simp
      have room: "int (length (pool_promises s)) < limit"
        using tidyD(7)[OF t sus] .
      have "\<forall>won. pool_phase s = Suspended won \<longrightarrow> pool_todo s \<noteq> []"
        using tidyD(9)[OF t] by blast
      then have todo: "pool_todo s \<noteq> []" using sus by blast
      have st: "step limit f Tick s = Some (call_mapper f s)"
        using Suspended True by (simp add: step_def)
      from healthy_call_mapper[OF h todo room]
      have "healthy limit f (call_mapper f s)" "remaining (call_mapper f s) < remaining s"
        using Suspended True by (auto simp: remaining_def)
      then show ?thesis using st tick by blast
    next
      case False
      with ev Suspended obtain i others where "pool_promises s = i # others" "ev = Settle i"
        by (auto simp: next_event_def split: list.splits)
      then show ?thesis using healthy_settle[OF h, of i others] Suspended False by auto
    qed
  next
    case Returned
    with ev obtain i others where "pool_promises s = i # others" "ev = Settle i"
      by (auto simp: next_event_def split: list.splits)
    then show ?thesis using healthy_settle[OF h, of i others] Returned by auto
  next
    case (Failed e)
    then show ?thesis using ev by (simp add: next_event_def)
  qed
qed

lemma healthy_end:
  assumes h: "healthy limit f s" and "next_event s = None" and "1 \<le> limit"
  shows "\<exists>r. settlement s = Some (Fulfil r)"
proof -
  have t: "tidy limit s" using h by (rule healthy_tidy)
  have nf: "\<forall>e. pool_phase s \<noteq> Failed e" using h by (simp add: healthy_def)
  have "pool_phase s = Returned \<and> pool_promises s = []"
  proof (cases "pool_phase s")
    case (Suspended won)
    then have "\<not> won" "pool_promises s = []" using assms(2)
      by (auto simp: next_event_def split: if_splits list.splits)
    then show ?thesis using tidyD(8)[OF t] Suspended assms(3) by auto
  qed (use assms(2) nf in \<open>auto simp: next_event_def split: list.splits\<close>)
  then have ret: "pool_phase s = Returned" and emp: "pool_promises s = []" by simp_all
  have "\<not> list_ex in_flight (pool_y s)"
  proof
    assume "list_ex in_flight (pool_y s)"
    then obtain i where "i < length (pool_y s)" "in_flight (pool_y s ! i)"
      by (auto simp: list_ex_iff in_set_conv_nth)
    then have "i \<in> set (pool_promises s)" using tidyD(4)[OF t, of i] by simp
    with emp show False by simp
  qed
  then show ?thesis using ret by (simp add: settlement_def)
qed

lemma drive_completes:
  assumes "1 \<le> limit"
  shows "healthy limit f s \<Longrightarrow> remaining s \<le> k \<Longrightarrow>
         \<exists>s' r. run limit f (drive limit f (Suc k) s) s = Some s' \<and> settlement s' = Some (Fulfil r)"
proof (induction k arbitrary: s)
  case 0
  have "next_event s = None"
  proof (cases "next_event s")
    case (Some ev)
    from healthy_next[OF "0.prems"(1) Some] "0.prems"(2) show ?thesis by auto
  qed simp
  then show ?case using healthy_end[OF "0.prems"(1) _ assms] by auto
next
  case (Suc k)
  show ?case
  proof (cases "next_event s")
    case None
    then show ?thesis using healthy_end[OF Suc.prems(1) _ assms] by auto
  next
    case (Some ev)
    from healthy_next[OF Suc.prems(1) Some] obtain s1 where
      st: "step limit f ev s = Some s1" and h1: "healthy limit f s1"
      and less: "remaining s1 < remaining s" by blast
    from less Suc.prems(2) have "remaining s1 \<le> k" by simp
    from Suc.IH[OF h1 this] obtain s' r where
      "run limit f (drive limit f (Suc k) s1) s1 = Some s'" "settlement s' = Some (Fulfil r)"
      by blast
    then show ?thesis using Some st by auto
  qed
qed

lemma healthy_start:
  assumes "1 \<le> limit" "\<forall>x\<in>set xs. fulfils (f x)"
  shows "healthy limit f (start xs)"
  using assms tidy_start[of limit xs] by (simp add: healthy_def) (simp add: start_def)

lemma pool_completes:
  assumes "1 \<le> limit" "\<forall>x\<in>set xs. fulfils (f x)"
  shows "\<exists>evs s r. run limit f evs (start xs) = Some s \<and> settlement s = Some (Fulfil r)"
proof -
  have "remaining (start xs) \<le> 4 * length xs + 3" by (simp add: remaining_def start_def)
  from drive_completes[OF assms(1) healthy_start[OF assms] this] show ?thesis by blast
qed

text \<open>
  C5. Let the limit be at least 1. Whenever a run of \<open>mapPoolArray\<close> over the array \<open>xs\<close>
  ends with its promise fulfilled, whatever the order in which the events settled the
  mapper's promises, the value is an array as long as \<open>xs\<close> whose element \<open>i\<close> is what
  the mapper's result on \<open>xs[i]\<close> resolves to. Such a run exists whenever the mapper
  returns a value or a promise that fulfils on every element. \<open>map.pool\<close> with a function
  returns the unary function that sends an array to \<open>mapPoolArray\<close>.
\<close>

theorem pool_positional:
  assumes "1 \<le> limit"
  shows "(run limit f evs (start xs) = Some s \<and> settlement s = Some (Fulfil r) \<longrightarrow>
            (\<exists>vs. r = Arr vs \<and> length vs = length xs
                \<and> (\<forall>i<length xs. \<exists>yi. f (xs ! i) = Inr yi \<and> await yi = Fulfil (vs ! i))))
       \<and> ((\<forall>x\<in>set xs. fulfils (f x)) \<longrightarrow>
            (\<exists>evs s r. run limit f evs (start xs) = Some s \<and> settlement s = Some (Fulfil r)))
       \<and> (isFunction fn \<longrightarrow> map_pool limit fn = Inr pool_apply)
       \<and> (isArray x \<longrightarrow> pool_apply x = Inr ArrayS)"
  using assms pool_positions[of limit f evs xs s r] pool_completes[of limit xs f]
  by (simp add: map_pool_def pool_apply_def)

text \<open>
  Two schedules that settle the promises in different orders fulfil with the same array,
  and it holds ten times each number at the place of the number.
\<close>

theorem pool_positional_witness:
  "(1::int) \<le> 2
   \<and> run 2 slow in_order (start one_to_five) = Some all_done
   \<and> run 2 slow out_of_order (start one_to_five) = Some all_done
   \<and> in_order \<noteq> out_of_order
   \<and> settlement all_done = Some (Fulfil (Arr [Num 10, Num 20, Num 30, Num 40, Num 50]))
   \<and> (\<exists>vs. Arr [Num 10, Num 20, Num 30, Num 40, Num 50] = Arr vs
          \<and> length vs = length one_to_five
          \<and> (\<forall>i<length one_to_five. \<exists>yi. slow (one_to_five ! i) = Inr yi \<and> await yi = Fulfil (vs ! i)))"
proof -
  have one: "(1::int) \<le> 2" by simp
  have diff: "in_order \<noteq> out_of_order" by (simp add: in_order_def out_of_order_def)
  from pool_positional[OF one, of slow out_of_order one_to_five all_done
      "Arr [Num 10, Num 20, Num 30, Num 40, Num 50]"] run_out_of_order settlement_all_done
  have pos: "\<exists>vs. Arr [Num 10, Num 20, Num 30, Num 40, Num 50] = Arr vs
          \<and> length vs = length one_to_five
          \<and> (\<forall>i<length one_to_five. \<exists>yi. slow (one_to_five ! i) = Inr yi \<and> await yi = Fulfil (vs ! i))"
    by blast
  show ?thesis using one run_in_order run_out_of_order diff settlement_all_done pos
    by (intro conjI)
qed

end
